theory Spec2Isabelle
  imports Main
begin

section \<open>Document model\<close>

text \<open>
  The engine's tree model, as far as the clipboard code of
  \<^verbatim>\<open>tableclipboard.ts\<close> and \<^verbatim>\<open>assignfragmentmarkers.ts\<close> touches it.
  A node is a text node or an element. An element carries an identity (the JavaScript object
  identity that \<^verbatim>\<open>writer.remove( element )\<close> relies on), its name, its attributes and its
  children. A document fragment is the list of its children.
\<close>

datatype node =
  Text string
| Element nat string "(string \<times> string) list" "node list"

fun isElement :: "node \<Rightarrow> bool" where
  "isElement (Text _) = False"
| "isElement (Element _ _ _ _) = True"

text \<open>\<^verbatim>\<open>item.is( 'element', 'table' )\<close>\<close>

fun isTable :: "node \<Rightarrow> bool" where
  "isTable (Text _) = False"
| "isTable (Element _ n _ _) = (n = ''table'')"

text \<open>\<^verbatim>\<open>item.getAttribute( key )\<close>: the first binding of the key, \<^verbatim>\<open>undefined\<close> as \<open>None\<close>.\<close>

fun getAttribute :: "node \<Rightarrow> string \<Rightarrow> string option" where
  "getAttribute (Text _) k = None"
| "getAttribute (Element _ _ as _) k = map_of as k"

text \<open>\<^verbatim>\<open>element.getChildren()\<close>; a text node has none.\<close>

fun childrenOf :: "node \<Rightarrow> node list" where
  "childrenOf (Text _) = []"
| "childrenOf (Element _ _ _ cs) = cs"

text \<open>
  All nodes below a list of siblings, in document order: the items of a range that runs over
  the siblings, iterated from its start (\<^verbatim>\<open>range.getItems()\<close>, and the iteration of a range,
  which both leave out the ends of elements).
\<close>

fun items :: "node list \<Rightarrow> node list" where
  "items [] = []"
| "items (Text s # ns) = Text s # items ns"
| "items (Element i n as cs # ns) = Element i n as cs # items cs @ items ns"


text \<open>The content handed to \<^verbatim>\<open>insertContent\<close>: \<^verbatim>\<open>DocumentFragment | Item\<close>.\<close>

datatype content =
  Fragment "node list"
| Item node

section \<open>ContentClassifier: \<^verbatim>\<open>getTableIfOnlyTableInContent\<close>\<close>

text \<open>
  The loop \<^verbatim>\<open>for ( const element of contentRange.getItems() )\<close> runs over every node below the
  content, at any depth, in document order; it returns at the first table it meets.
  \<^verbatim>\<open>rangeBefore\<close> runs from the start of the content to the position before the table: its
  items are the nodes met before the table, the elements that hold the table among them.
  \<^verbatim>\<open>rangeAfter\<close> runs from the position after the table to the end of the content: its items
  are the nodes met after the last node below the table.

  Modelled from the spec: \<^verbatim>\<open>model.hasContent( range, { ignoreWhitespaces: true } )\<close> belongs to
  the engine, an external collaborator. It is a parameter of the classifier, a query on the
  items of the range.
\<close>

fun scanForTable :: "(node list \<Rightarrow> bool) \<Rightarrow> node list \<Rightarrow> node list \<Rightarrow> node option" where
  "scanForTable hasContent before [] = None"
| "scanForTable hasContent before (element # rest) =
     (if isTable element then
        (if hasContent before then None
         else if hasContent (drop (length (items (childrenOf element))) rest) then None
         else Some element)
      else scanForTable hasContent (before @ [element]) rest)"

definition tableInChildren :: "(node list \<Rightarrow> bool) \<Rightarrow> node list \<Rightarrow> node option" where
  "tableInChildren hasContent cs =
     (case cs of
        [c] \<Rightarrow> if isTable c then Some c else scanForTable hasContent [] (items cs)
      | _ \<Rightarrow> scanForTable hasContent [] (items cs))"

fun getTableIfOnlyTableInContent :: "(node list \<Rightarrow> bool) \<Rightarrow> content \<Rightarrow> node option" where
  "getTableIfOnlyTableInContent hasContent (Item (Text s)) = None"
| "getTableIfOnlyTableInContent hasContent (Item (Element i n as cs)) =
     (if n = ''table'' then Some (Element i n as cs) else tableInChildren hasContent cs)"
| "getTableIfOnlyTableInContent hasContent (Fragment cs) = tableInChildren hasContent cs"

text \<open>
  Modelled from the spec: a reading of the engine's query, used to run the classifier. An item
  of the range is content when the schema says so: a text that holds a character that is not
  white space, or an element that the schema registers as an object; \<open>objects\<close> lists the names
  of those elements. White space is the class \<^verbatim>\<open>\s\<close> of the language, as far as it lies in the
  characters of a string here (tab, line feed, vertical tab, form feed, carriage return, space
  and the no-break space).
\<close>

definition isWhitespace :: "char \<Rightarrow> bool" where
  "isWhitespace c =
     (c \<in> set [CHR 0x09, CHR 0x0A, CHR 0x0B, CHR 0x0C, CHR 0x0D, CHR 0x20, CHR 0xA0])"

fun isContent :: "string list \<Rightarrow> node \<Rightarrow> bool" where
  "isContent objects (Text s) = (\<exists>c \<in> set s. \<not> isWhitespace c)"
| "isContent objects (Element i n as cs) = (n \<in> set objects)"

definition hasContentIgnoringWhitespaces :: "string list \<Rightarrow> node list \<Rightarrow> bool" where
  "hasContentIgnoringWhitespaces objects rangeItems = (\<exists>item \<in> set rangeItems. isContent objects item)"

text \<open>The shapes of content the classifier accepts.\<close>

fun containerChildren :: "content \<Rightarrow> node list option" where
  "containerChildren (Fragment cs) = Some cs"
| "containerChildren (Item (Text s)) = None"
| "containerChildren (Item (Element i n as cs)) = (if n = ''table'' then None else Some cs)"

text \<open>
  \<open>g\<close> is the first table among the items, and nothing before it and nothing after the nodes
  below it is content.
\<close>

definition firstTableAmong :: "(node list \<Rightarrow> bool) \<Rightarrow> node list \<Rightarrow> node \<Rightarrow> bool" where
  "firstTableAmong hasContent rangeItems g =
     (\<exists>before after. rangeItems = before @ g # items (childrenOf g) @ after \<and> isTable g \<and>
        filter isTable before = [] \<and> \<not> hasContent before \<and> \<not> hasContent after)"

text \<open>The reading of the spec: the scan looks at the top-level children only.\<close>

definition onlyTableAmong :: "(node list \<Rightarrow> bool) \<Rightarrow> node list \<Rightarrow> node \<Rightarrow> bool" where
  "onlyTableAmong hasContent cs g =
     (\<exists>before after. cs = before @ g # after \<and> isTable g \<and>
        filter isTable (before @ after) = [] \<and> \<not> hasContent before \<and> \<not> hasContent after)"

text \<open>Content for running the classifier: a table, and the table inside a block quote.\<close>

definition smallTable :: node where
  "smallTable =
     Element 1 ''table'' []
       [Element 2 ''tableRow'' [] [Element 3 ''tableCell'' [] [Element 4 ''paragraph'' [] [Text ''x'']]]]"

definition quotedTable :: "node list" where
  "quotedTable = [Element 9 ''blockQuote'' [] [smallTable]]"

section \<open>Positions, ranges and the writer\<close>

text \<open>
  Modelled from the spec: the engine's positions, ranges and writer (\<^verbatim>\<open>ckeditor5-engine\<close>) are
  external collaborators of the clipboard code. A position is the path of offsets from the root;
  a text node takes as many offsets as it has characters, an element takes one.
\<close>

type_synonym path = "nat list"

datatype range = Range (rangeStart: path) (rangeEnd: path)

fun ident :: "node \<Rightarrow> nat" where
  "ident (Text _) = 0"
| "ident (Element i _ _ _) = i"

fun offsetSize :: "node \<Rightarrow> nat" where
  "offsetSize (Text s) = length s"
| "offsetSize (Element _ _ _ _) = 1"

definition maxOffset :: "node list \<Rightarrow> nat" where
  "maxOffset ns = sum_list (map offsetSize ns)"

text \<open>\<^verbatim>\<open>posA.isBefore( posB )\<close>: the paths compared offset by offset, a proper prefix first.\<close>

fun isBefore :: "path \<Rightarrow> path \<Rightarrow> bool" where
  "isBefore [] [] = False"
| "isBefore [] (y # ys) = True"
| "isBefore (x # xs) [] = False"
| "isBefore (x # xs) (y # ys) = (x < y \<or> (x = y \<and> isBefore xs ys))"

definition isAfter :: "path \<Rightarrow> path \<Rightarrow> bool" where
  "isAfter a b = isBefore b a"

text \<open>\<^verbatim>\<open>writer.createPositionAt( element, 'before' )\<close>, the element found by its identity.\<close>

fun positionBefore :: "nat \<Rightarrow> node list \<Rightarrow> nat \<Rightarrow> path option" where
  "positionBefore i [] off = None"
| "positionBefore i (Text s # ns) off = positionBefore i ns (off + length s)"
| "positionBefore i (Element j n as cs # ns) off =
     (if j = i then Some [off]
      else case positionBefore i cs 0 of
             Some p \<Rightarrow> Some (off # p)
           | None \<Rightarrow> positionBefore i ns (off + 1))"

text \<open>\<^verbatim>\<open>writer.remove( element )\<close>: the element leaves its parent, with everything below it.\<close>

fun removeNode :: "nat \<Rightarrow> node list \<Rightarrow> node list" where
  "removeNode i [] = []"
| "removeNode i (Text s # ns) = Text s # removeNode i ns"
| "removeNode i (Element j n as cs # ns) =
     (if j = i then removeNode i ns
      else Element j n as (removeNode i cs) # removeNode i ns)"

text \<open>
  \<^verbatim>\<open>writer.insert( node, position )\<close>: the node goes in at the offset the path ends with, in the
  parent the path leads to; a text node that spans the offset is split. A path that leads
  nowhere is an error of the engine (\<open>None\<close>).
\<close>

fun insertAt :: "path \<Rightarrow> node \<Rightarrow> node list \<Rightarrow> node list option" where
  "insertAt [] x ns = None"
| "insertAt (off # p) x ns =
     (if p = [] \<and> off = 0 then Some (x # ns)
      else case ns of
        [] \<Rightarrow> None
      | Text s # r \<Rightarrow>
          if off < length s then
            (if p = [] then Some (Text (take off s) # x # Text (drop off s) # r) else None)
          else map_option ((#) (Text s)) (insertAt ((off - length s) # p) x r)
      | Element j n as cs # r \<Rightarrow>
          if off = 0 then map_option (\<lambda>cs'. Element j n as cs' # r) (insertAt p x cs)
          else map_option ((#) (Element j n as cs)) (insertAt ((off - 1) # p) x r))"

section \<open>MarkerSentinelCodec, copy and cut: \<^verbatim>\<open>assignfragmentmarkers.ts\<close>\<close>

datatype error = InvalidPosition | NodeNotInTree | TypeError | MarkerExists

fun bindE :: "error + 'a \<Rightarrow> ('a \<Rightarrow> error + 'b) \<Rightarrow> error + 'b" where
  "bindE (Inl e) f = Inl e"
| "bindE (Inr x) f = f x"

datatype marker = Marker (markerName: string) (markerRange: range)

text \<open>
  The writer, as the encode step uses it: the tree it writes to, the next fresh identity for
  \<^verbatim>\<open>writer.createElement\<close>, and the \<^verbatim>\<open>writer.insert( element, position )\<close> calls made so far.
\<close>

record writer =
  root :: "node list"
  nextId :: nat
  insertions :: "(path \<times> node) list"

text \<open>\<^verbatim>\<open>Range.isIntersecting\<close>, behind \<^verbatim>\<open>markers.getMarkersIntersectingRange( range )\<close>.\<close>

definition isIntersecting :: "range \<Rightarrow> range \<Rightarrow> bool" where
  "isIntersecting r other =
     (isBefore (rangeStart r) (rangeEnd other) \<and> isAfter (rangeEnd r) (rangeStart other))"

definition getMarkersIntersectingRange :: "marker list \<Rightarrow> range \<Rightarrow> marker list" where
  "getMarkersIntersectingRange ms r = filter (\<lambda>m. isIntersecting (markerRange m) r) ms"

definition startsWith :: "string \<Rightarrow> string \<Rightarrow> bool" where
  "startsWith s p = (take (length p) s = p)"

definition getCopyableMarkersFromSelection :: "marker list \<Rightarrow> range list \<Rightarrow> marker list" where
  "getCopyableMarkersFromSelection ms selectionRanges =
     concat (map (\<lambda>selectionRange.
        filter (\<lambda>marker. startsWith (markerName marker) ''comment:'')
          (getMarkersIntersectingRange ms selectionRange)) selectionRanges)"

text \<open>
  \<^verbatim>\<open>.sort( ( a, b ) => a.position.isBefore( b.position ) ? 1 : -1 )\<close>: positions backwards.
  The comparator never answers 0, so the language leaves the order of two entries at the same
  position open; the sort is read here as an insertion sort from the right.
\<close>

fun insertFromRight :: "(path \<times> 'a) \<Rightarrow> (path \<times> 'a) list \<Rightarrow> (path \<times> 'a) list" where
  "insertFromRight x [] = [x]"
| "insertFromRight x (y # ys) =
     (if isBefore (fst y) (fst x) then y # insertFromRight x ys else x # y # ys)"

definition sortBackwards :: "(path \<times> 'a) list \<Rightarrow> (path \<times> 'a) list" where
  "sortBackwards xs = rev (foldl (\<lambda>acc x. insertFromRight x acc) [] xs)"

definition markerBoundaries :: "marker list \<Rightarrow> (path \<times> marker \<times> string) list" where
  "markerBoundaries ms =
     concat (map (\<lambda>marker.
        [(rangeStart (markerRange marker), marker, ''start''),
         (rangeEnd (markerRange marker), marker, ''end'')]) ms)"

text \<open>\<^verbatim>\<open>mappedMarkers.get( marker ).push( fakeMarker )\<close>, the keys in order of first insertion.\<close>

fun pushTo :: "'k \<Rightarrow> 'v \<Rightarrow> ('k \<times> 'v list) list \<Rightarrow> ('k \<times> 'v list) list" where
  "pushTo k v [] = [(k, [v])]"
| "pushTo k v ((k', vs) # r) = (if k' = k then (k', vs @ [v]) # r else (k', vs) # pushTo k v r)"

definition fakeMarkerElement :: "nat \<Rightarrow> string \<Rightarrow> string \<Rightarrow> node" where
  "fakeMarkerElement i name type =
     Element i ''$marker'' [(''data-name'', name), (''data-type'', type)] []"

fun insertFakeMarkersLoop ::
  "writer \<Rightarrow> (marker \<times> node list) list \<Rightarrow> (path \<times> marker \<times> string) list
     \<Rightarrow> error + (writer \<times> (marker \<times> node list) list)" where
  "insertFakeMarkersLoop w mappedMarkers [] = Inr (w, mappedMarkers)"
| "insertFakeMarkersLoop w mappedMarkers ((position, marker, type) # rest) =
     (let fakeMarker = fakeMarkerElement (nextId w) (markerName marker) type in
      case insertAt position fakeMarker (root w) of
        None \<Rightarrow> Inl InvalidPosition
      | Some r \<Rightarrow>
          insertFakeMarkersLoop
            (w\<lparr>root := r, nextId := Suc (nextId w),
               insertions := insertions w @ [(position, fakeMarker)]\<rparr>)
            (pushTo marker fakeMarker mappedMarkers) rest)"

definition insertFakeMarkersElements ::
  "writer \<Rightarrow> marker list \<Rightarrow> error + (writer \<times> (marker \<times> node list) list)" where
  "insertFakeMarkersElements w ms = insertFakeMarkersLoop w [] (sortBackwards (markerBoundaries ms))"

text \<open>\<^verbatim>\<open>beforeCopySelectionMarkersFragment\<close>, later named \<^verbatim>\<open>insertAndCollectFakeMarkers\<close>.\<close>

definition beforeCopySelectionMarkersFragment ::
  "writer \<Rightarrow> marker list \<Rightarrow> range list \<Rightarrow> error + (writer \<times> (marker \<times> node list) list)" where
  "beforeCopySelectionMarkersFragment w ms selectionRanges =
     insertFakeMarkersElements w (getCopyableMarkersFromSelection ms selectionRanges)"

text \<open>The \<^verbatim>\<open>writer.insert\<close> calls the loop makes for a list of boundaries, identities from \<open>i\<close> on.\<close>

fun sentinelsFrom :: "nat \<Rightarrow> (path \<times> marker \<times> string) list \<Rightarrow> (path \<times> node) list" where
  "sentinelsFrom i [] = []"
| "sentinelsFrom i ((position, marker, type) # rest) =
     (position, fakeMarkerElement i (markerName marker) type) # sentinelsFrom (Suc i) rest"

section \<open>MarkerSentinelCodec, pasting into a table: \<^verbatim>\<open>tableclipboard.ts\<close>\<close>

text \<open>\<^verbatim>\<open>_convertMarkersToElements\<close>: the markers of the pasted fragment, a map from name to range.\<close>

definition tableFakeMarker :: "nat \<Rightarrow> string \<Rightarrow> node" where
  "tableFakeMarker i name = Element i ''$marker'' [(''data-name'', name)] []"

fun convertMarkersLoop :: "writer \<Rightarrow> (path \<times> string) list \<Rightarrow> error + writer" where
  "convertMarkersLoop w [] = Inr w"
| "convertMarkersLoop w ((position, name) # rest) =
     (let fakeMarker = tableFakeMarker (nextId w) name in
      case insertAt position fakeMarker (root w) of
        None \<Rightarrow> Inl InvalidPosition
      | Some r \<Rightarrow>
          convertMarkersLoop
            (w\<lparr>root := r, nextId := Suc (nextId w),
               insertions := insertions w @ [(position, fakeMarker)]\<rparr>) rest)"

definition convertMarkersToElements :: "(string \<times> range) list \<Rightarrow> writer \<Rightarrow> error + writer" where
  "convertMarkersToElements markers w =
     convertMarkersLoop w
       (sortBackwards (concat (map (\<lambda>(name, r). [(rangeStart r, name), (rangeEnd r, name)]) markers)))"

text \<open>A one-paragraph document for running the codec.\<close>

definition paragraphDocument :: "node list" where
  "paragraphDocument = [Element 1 ''paragraph'' [] [Text ''abcdef'']]"

section \<open>MarkerSentinelCodec, copy and cut: the decode step\<close>

text \<open>A JavaScript object or \<^verbatim>\<open>Map\<close> with string keys: \<^verbatim>\<open>acc[ key ] = value\<close>.\<close>

fun setEntry :: "'k \<Rightarrow> 'v \<Rightarrow> ('k \<times> 'v) list \<Rightarrow> ('k \<times> 'v) list" where
  "setEntry k v [] = [(k, v)]"
| "setEntry k v ((k', v') # r) = (if k' = k then (k, v) # r else (k', v') # setEntry k v r)"

text \<open>
  \<^verbatim>\<open>Object.entries( object )\<close>: the keys that are array indices come first, in ascending order,
  then the other keys in the order in which they were created. An array index is the decimal
  numeral, without a leading zero, of a number below \<open>2\<^sup>3\<^sup>2 - 1\<close>.
\<close>

definition isDigit :: "char \<Rightarrow> bool" where
  "isDigit c = (c \<in> set ''0123456789'')"

definition indexValue :: "string \<Rightarrow> nat" where
  "indexValue s = foldl (\<lambda>n c. 10 * n + (of_char c - 48)) 0 s"

definition isArrayIndex :: "string \<Rightarrow> bool" where
  "isArrayIndex s =
     (s \<noteq> [] \<and> list_all isDigit s \<and> (s = ''0'' \<or> hd s \<in> set ''123456789'') \<and>
      indexValue s < 4294967295)"

definition objectEntries :: "(string \<times> 'a) list \<Rightarrow> (string \<times> 'a) list" where
  "objectEntries entries =
     sort_key (\<lambda>e. indexValue (fst e)) (filter (\<lambda>e. isArrayIndex (fst e)) entries)
     @ filter (\<lambda>e. \<not> isArrayIndex (fst e)) entries"

text \<open>
  \<^verbatim>\<open>_getAllFakeMarkersFromElement\<close>: every element below the fragment that has a non-empty
  \<^verbatim>\<open>data-name\<close>, grouped by that name, each group in document order.
\<close>

fun collectFakeMarkers :: "node list \<Rightarrow> (string \<times> node list) list \<Rightarrow> (string \<times> node list) list" where
  "collectFakeMarkers [] fakeMarkerElements = fakeMarkerElements"
| "collectFakeMarkers (item # rest) fakeMarkerElements =
     (if \<not> isElement item then collectFakeMarkers rest fakeMarkerElements
      else case getAttribute item ''data-name'' of
             None \<Rightarrow> collectFakeMarkers rest fakeMarkerElements
           | Some fakeMarkerName \<Rightarrow>
               if fakeMarkerName = [] then collectFakeMarkers rest fakeMarkerElements
               else collectFakeMarkers rest (pushTo fakeMarkerName item fakeMarkerElements))"

definition getAllFakeMarkersFromElement :: "node list \<Rightarrow> (string \<times> node list) list" where
  "getAllFakeMarkersFromElement fragment = collectFakeMarkers (items fragment) []"

text \<open>
  The callback of the \<^verbatim>\<open>reduce\<close> in \<^verbatim>\<open>_removeFakeMarkersFromFragment\<close> (the same code is
  \<^verbatim>\<open>_removeFakeMarkersInsideFragment\<close> in the later version of the file): one marker name with
  the elements found for it; only the first two elements are looked at.
\<close>

definition removeFakeMarker ::
  "node list \<Rightarrow> (string \<times> range) list \<Rightarrow> string \<times> node list
     \<Rightarrow> error + (node list \<times> (string \<times> range) list)" where
  "removeFakeMarker fragment acc entry =
     (case entry of (name, elements) \<Rightarrow>
      case elements of
        [] \<Rightarrow> Inl TypeError
      | [startElement] \<Rightarrow>
          bindE
            (if getAttribute startElement ''data-type'' = Some ''end'' then
               (case positionBefore (ident startElement) fragment 0 of
                  None \<Rightarrow> Inl NodeNotInTree
                | Some endPosition \<Rightarrow>
                    Inr (removeNode (ident startElement) fragment,
                         setEntry name (Range [0] endPosition) acc))
             else Inr (fragment, acc))
            (\<lambda>(fragment1, acc1).
               if getAttribute startElement ''data-type'' = Some ''start'' then
                 (case positionBefore (ident startElement) fragment1 0 of
                    None \<Rightarrow> Inl NodeNotInTree
                  | Some startPosition \<Rightarrow>
                      (let fragment2 = removeNode (ident startElement) fragment1 in
                       Inr (fragment2,
                            setEntry name (Range startPosition [maxOffset fragment2]) acc1)))
               else Inr (fragment1, acc1))
      | startElement # endElement # _ \<Rightarrow>
          (case positionBefore (ident startElement) fragment 0 of
             None \<Rightarrow> Inl NodeNotInTree
           | Some startPosition \<Rightarrow>
               (let fragment1 = removeNode (ident startElement) fragment in
                case positionBefore (ident endElement) fragment1 0 of
                  None \<Rightarrow> Inl NodeNotInTree
                | Some endPosition \<Rightarrow>
                    Inr (removeNode (ident endElement) fragment1,
                         setEntry name (Range startPosition endPosition) acc))))"

fun removeFakeMarkersFromFragment ::
  "node list \<Rightarrow> (string \<times> node list) list \<Rightarrow> (string \<times> range) list
     \<Rightarrow> error + (node list \<times> (string \<times> range) list)" where
  "removeFakeMarkersFromFragment fragment [] acc = Inr (fragment, acc)"
| "removeFakeMarkersFromFragment fragment (entry # rest) acc =
     (case removeFakeMarker fragment acc entry of
        Inl e \<Rightarrow> Inl e
      | Inr (fragment1, acc1) \<Rightarrow> removeFakeMarkersFromFragment fragment1 rest acc1)"

text \<open>
  What a copy or cut works on: the tree the selection lives in, the fragment that was extracted
  from it, and the markers of that fragment (\<^verbatim>\<open>documentFragment.markers\<close>).
\<close>

record clipboard =
  source :: "node list"
  fragment :: "node list"
  fragmentMarkers :: "(string \<times> range) list"

text \<open>
  \<^verbatim>\<open>for ( const element of ... ) { writer.remove( element ); }\<close>: each element leaves the tree
  that holds it; an element that has no parent is an error of the engine.
\<close>

fun removeElements :: "clipboard \<Rightarrow> node list \<Rightarrow> error + clipboard" where
  "removeElements c [] = Inr c"
| "removeElements c (element # rest) =
     (if positionBefore (ident element) (source c) 0 \<noteq> None then
        removeElements (c\<lparr>source := removeNode (ident element) (source c)\<rparr>) rest
      else if positionBefore (ident element) (fragment c) 0 \<noteq> None then
        removeElements (c\<lparr>fragment := removeNode (ident element) (fragment c)\<rparr>) rest
      else Inl NodeNotInTree)"

fun setAll :: "('k \<times> 'v) list \<Rightarrow> ('k \<times> 'v) list \<Rightarrow> ('k \<times> 'v) list" where
  "setAll [] m = m"
| "setAll ((k, v) # r) m = setAll r (setEntry k v m)"

text \<open>\<^verbatim>\<open>afterCopySelectionMarkersFragment\<close>, lines 135 to 154 of \<^verbatim>\<open>assignfragmentmarkers.ts\<close>.\<close>

definition afterCopySelectionMarkersFragment ::
  "clipboard \<Rightarrow> (marker \<times> node list) list \<Rightarrow> error + clipboard" where
  "afterCopySelectionMarkersFragment c insertedFakeMarkersElements =
     (case removeFakeMarkersFromFragment (fragment c)
             (objectEntries (getAllFakeMarkersFromElement (fragment c))) [] of
        Inl e \<Rightarrow> Inl e
      | Inr (fragment1, fakeMarkersRanges) \<Rightarrow>
          removeElements
            (c\<lparr>fragment := fragment1,
               fragmentMarkers := setAll (objectEntries fakeMarkersRanges) (fragmentMarkers c)\<rparr>)
            (concat (map snd insertedFakeMarkersElements)))"

text \<open>
  \<^verbatim>\<open>collectAndRemoveFakeMarkers\<close>, lines 292 to 319 of the same file: the later version of the
  decode step, with the case of a selection inside a marker.
\<close>

fun setInsideMarkers ::
  "(string \<times> range) list \<Rightarrow> range \<Rightarrow> (marker \<times> node list) list \<Rightarrow> (string \<times> range) list
     \<Rightarrow> (string \<times> range) list" where
  "setInsideMarkers fakeMarkersRangesInsideRange whole [] ms = ms"
| "setInsideMarkers fakeMarkersRangesInsideRange whole ((marker, elements) # rest) ms =
     (if map_of fakeMarkersRangesInsideRange (markerName marker) \<noteq> None
      then setInsideMarkers fakeMarkersRangesInsideRange whole rest ms
      else setInsideMarkers fakeMarkersRangesInsideRange whole rest
             (setEntry (markerName marker) whole ms))"

definition createRangeIn :: "node list \<Rightarrow> range" where
  "createRangeIn ns = Range [0] [maxOffset ns]"

definition collectAndRemoveFakeMarkers ::
  "clipboard \<Rightarrow> (marker \<times> node list) list \<Rightarrow> error + clipboard" where
  "collectAndRemoveFakeMarkers c insertedFakeMarkersElements =
     (case removeFakeMarkersFromFragment (fragment c)
             (objectEntries (getAllFakeMarkersFromElement (fragment c))) [] of
        Inl e \<Rightarrow> Inl e
      | Inr (fragment1, fakeMarkersRangesInsideRange) \<Rightarrow>
          removeElements
            (c\<lparr>fragment := fragment1,
               fragmentMarkers :=
                 setInsideMarkers fakeMarkersRangesInsideRange (createRangeIn fragment1)
                   insertedFakeMarkersElements
                   (setAll (objectEntries fakeMarkersRangesInsideRange) (fragmentMarkers c))\<rparr>)
            (concat (map snd insertedFakeMarkersElements)))"

text \<open>Clipboards for running the decode step.\<close>

definition loneEndFragment :: "node list" where
  "loneEndFragment =
     [Element 2 ''paragraph'' [] [Text ''a'', fakeMarkerElement 11 ''comment:a'' ''end'', Text ''b'']]"

definition insideSource :: "node list" where
  "insideSource =
     [Element 1 ''paragraph'' []
        [fakeMarkerElement 101 ''comment:a'' ''start'', Text ''abcdef'',
         fakeMarkerElement 100 ''comment:a'' ''end'']]"

definition insideInserted :: "(marker \<times> node list) list" where
  "insideInserted =
     [(Marker ''comment:a'' (Range [0, 0] [0, 6]),
       [fakeMarkerElement 100 ''comment:a'' ''end'', fakeMarkerElement 101 ''comment:a'' ''start''])]"

definition twoCellTable :: "node list" where
  "twoCellTable =
     [Element 1 ''table'' []
        [Element 2 ''tableRow'' []
           [Element 3 ''tableCell'' [] [Element 4 ''paragraph'' [] [Text ''ab'']],
            Element 5 ''tableCell'' [] [Element 6 ''paragraph'' [] [Text ''cd'']]]]]"

definition twoCellEncoded :: "node list" where
  "twoCellEncoded =
     [Element 1 ''table'' []
        [Element 2 ''tableRow'' []
           [Element 3 ''tableCell'' []
              [Element 4 ''paragraph'' []
                 [Text ''a'', fakeMarkerElement 103 ''comment:a'' ''start'',
                  fakeMarkerElement 102 ''comment:a'' ''start'', Text ''b'']],
            Element 5 ''tableCell'' []
              [Element 6 ''paragraph'' []
                 [Text ''c'', fakeMarkerElement 101 ''comment:a'' ''end'',
                  fakeMarkerElement 100 ''comment:a'' ''end'', Text ''d'']]]]]"

definition twoCellInserted :: "(marker \<times> node list) list" where
  "twoCellInserted =
     [(Marker ''comment:a'' (Range [0, 0, 0, 0, 1] [0, 0, 1, 0, 1]),
       [fakeMarkerElement 100 ''comment:a'' ''end'', fakeMarkerElement 101 ''comment:a'' ''end'',
        fakeMarkerElement 102 ''comment:a'' ''start'', fakeMarkerElement 103 ''comment:a'' ''start''])]"

definition twoCellFragment :: "node list" where
  "twoCellFragment =
     [Element 11 ''table'' []
        [Element 12 ''tableRow'' []
           [Element 13 ''tableCell'' []
              [Element 14 ''paragraph'' []
                 [Text ''a'', fakeMarkerElement 203 ''comment:a'' ''start'',
                  fakeMarkerElement 202 ''comment:a'' ''start'', Text ''b'']],
            Element 15 ''tableCell'' []
              [Element 16 ''paragraph'' []
                 [Text ''c'', fakeMarkerElement 201 ''comment:a'' ''end'',
                  fakeMarkerElement 200 ''comment:a'' ''end'', Text ''d'']]]]]"

definition twoCellLeftover :: "node list" where
  "twoCellLeftover =
     [Element 11 ''table'' []
        [Element 12 ''tableRow'' []
           [Element 13 ''tableCell'' [] [Element 14 ''paragraph'' [] [Text ''a'', Text ''b'']],
            Element 15 ''tableCell'' []
              [Element 16 ''paragraph'' []
                 [Text ''c'', fakeMarkerElement 201 ''comment:a'' ''end'',
                  fakeMarkerElement 200 ''comment:a'' ''end'', Text ''d'']]]]]"

section \<open>MarkerSentinelCodec, pasting into a table: the decode step\<close>

text \<open>\<^verbatim>\<open>markerName.lastIndexOf( ':' )\<close>: the index of the last occurrence, or \<open>-1\<close>.\<close>

fun lastIndexOf :: "string \<Rightarrow> char \<Rightarrow> int" where
  "lastIndexOf [] c = -1"
| "lastIndexOf (x # xs) c =
     (let i = lastIndexOf xs c in
      if i \<ge> 0 then i + 1 else if x = c then 0 else -1)"

text \<open>\<^verbatim>\<open>s.slice( 0, end )\<close>: a negative end counts from the end of the string.\<close>

definition slice0 :: "string \<Rightarrow> int \<Rightarrow> string" where
  "slice0 s e = (if e < 0 then take (nat (int (length s) + e)) s else take (nat e) s)"

text \<open>\<^verbatim>\<open>chunk( positions, 2 )\<close> of lodash.\<close>

fun chunk2 :: "'a list \<Rightarrow> 'a list list" where
  "chunk2 [] = []"
| "chunk2 [x] = [[x]]"
| "chunk2 (x # y # r) = [x, y] # chunk2 r"

text \<open>
  The writer, as the decode step uses it: the tree of the document, the markers of the model
  (\<^verbatim>\<open>writer.addMarker( name, { range, ... } )\<close> adds one, with the range it is given), and the
  number of identifiers drawn from \<^verbatim>\<open>uid()\<close>. The generator itself is a parameter: \<open>uid k\<close> is
  the \<open>k\<close>-th identifier it hands out.
\<close>

record tableWriter =
  tree :: "node list"
  modelMarkers :: "(string \<times> range) list"
  uidCount :: nat

definition removeFromTree :: "node \<Rightarrow> tableWriter \<Rightarrow> error + tableWriter" where
  "removeFromTree x w =
     (if positionBefore (ident x) (tree w) 0 = None then Inl NodeNotInTree
      else Inr (w\<lparr>tree := removeNode (ident x) (tree w)\<rparr>))"

text \<open>The name of the marker of one chunk.\<close>

definition chunkMarkerName :: "(nat \<Rightarrow> string) \<Rightarrow> string \<Rightarrow> nat \<Rightarrow> nat \<Rightarrow> string" where
  "chunkMarkerName uid name chunkOffset k =
     (if chunkOffset > 0
      then slice0 name (lastIndexOf name (CHR '':'')) @ '':'' @ uid k
      else name)"

text \<open>
  The loop over the chunks of one marker name. \<^verbatim>\<open>writer.addMarker\<close> throws when the model has
  a marker of that name already.
\<close>

fun convertChunks ::
  "(nat \<Rightarrow> string) \<Rightarrow> string \<Rightarrow> nat \<Rightarrow> node list list \<Rightarrow> tableWriter \<Rightarrow> error + tableWriter" where
  "convertChunks uid name chunkOffset [] w = Inr w"
| "convertChunks uid name chunkOffset (c # rest) w =
     (case c of
        [] \<Rightarrow> Inl TypeError
      | [startNode] \<Rightarrow>
          (case removeFromTree startNode w of
             Inl e \<Rightarrow> Inl e
           | Inr w1 \<Rightarrow> convertChunks uid name (chunkOffset + 1) rest w1)
      | startNode # endNode # _ \<Rightarrow>
          (case positionBefore (ident startNode) (tree w) 0 of
             None \<Rightarrow> Inl NodeNotInTree
           | Some startPosition \<Rightarrow>
          (case positionBefore (ident endNode) (tree w) 0 of
             None \<Rightarrow> Inl NodeNotInTree
           | Some endPosition \<Rightarrow>
          (let chunkName = chunkMarkerName uid name chunkOffset (uidCount w) in
           if chunkName \<in> set (map fst (modelMarkers w)) then Inl MarkerExists
           else
          (let w1 = w\<lparr>modelMarkers := modelMarkers w @ [(chunkName, Range startPosition endPosition)],
                      uidCount := (if chunkOffset > 0 then uidCount w + 1 else uidCount w)\<rparr> in
           case removeFromTree endNode w1 of
             Inl e \<Rightarrow> Inl e
           | Inr w2 \<Rightarrow>
          (case removeFromTree startNode w2 of
             Inl e \<Rightarrow> Inl e
           | Inr w3 \<Rightarrow> convertChunks uid name (chunkOffset + 1) rest w3))))))"

fun convertGroups ::
  "(nat \<Rightarrow> string) \<Rightarrow> (string \<times> node list) list \<Rightarrow> tableWriter \<Rightarrow> error + tableWriter" where
  "convertGroups uid [] w = Inr w"
| "convertGroups uid ((name, positions) # rest) w =
     (case convertChunks uid name 0 (chunk2 positions) w of
        Inl e \<Rightarrow> Inl e
      | Inr w1 \<Rightarrow> convertGroups uid rest w1)"

text \<open>
  The \<^verbatim>\<open>reduce\<close> over the items of the replaced cells: every item with a non-empty
  \<^verbatim>\<open>data-name\<close>, grouped by that name, each group in document order; the groups as
  \<^verbatim>\<open>Object.entries\<close> lists them.
\<close>

fun collectCellItems :: "node list \<Rightarrow> (string \<times> node list) list \<Rightarrow> (string \<times> node list) list" where
  "collectCellItems [] acc = acc"
| "collectCellItems (cellItem # rest) acc =
     (case getAttribute cellItem ''data-name'' of
        None \<Rightarrow> collectCellItems rest acc
      | Some markerAttribute \<Rightarrow>
          if markerAttribute = [] then collectCellItems rest acc
          else collectCellItems rest (pushTo markerAttribute cellItem acc))"

definition markersFakeElements :: "node list \<Rightarrow> (string \<times> node list) list" where
  "markersFakeElements replacedCells =
     objectEntries (collectCellItems (concat (map (\<lambda>cell. items [cell]) replacedCells)) [])"

definition convertElementsToMarkers ::
  "(nat \<Rightarrow> string) \<Rightarrow> node list \<Rightarrow> tableWriter \<Rightarrow> error + tableWriter" where
  "convertElementsToMarkers uid replacedCells w =
     convertGroups uid (markersFakeElements replacedCells) w"

text \<open>
  The markers the decode step is to register, in the words of the claim. The sentinels of one
  name are taken in consecutive pairs, in document order; the first pair registers the name
  itself, every further pair the name of its chunk, made with a newly drawn identifier; the
  range of a pair runs from the position before its first sentinel to the position before its
  second, in the tree as the pairs before it have left it; a sentinel without a partner
  registers nothing.
\<close>

text \<open>\<^verbatim>\<open>position.nodeAfter\<close>: the node that starts at a position.\<close>

fun nodeAfter :: "path \<Rightarrow> node list \<Rightarrow> node option" where
  "nodeAfter [] ns = None"
| "nodeAfter (off # p) [] = None"
| "nodeAfter (off # p) (Text s # r) =
     (if off < length s then (if p = [] \<and> off = 0 then Some (Text s) else None)
      else nodeAfter ((off - length s) # p) r)"
| "nodeAfter (off # p) (Element j n as cs # r) =
     (if off = 0 then (if p = [] then Some (Element j n as cs) else nodeAfter p cs)
      else nodeAfter ((off - 1) # p) r)"

definition positionOf :: "node \<Rightarrow> node list \<Rightarrow> path" where
  "positionOf x t = (case positionBefore (ident x) t 0 of Some p \<Rightarrow> p | None \<Rightarrow> [])"

fun pairedMarkers ::
  "(nat \<Rightarrow> string) \<Rightarrow> nat \<Rightarrow> string \<Rightarrow> nat \<Rightarrow> node list \<Rightarrow> node list \<Rightarrow> (string \<times> range) list" where
  "pairedMarkers uid c name k (first # second # rest) t =
     (chunkMarkerName uid name k c, Range (positionOf first t) (positionOf second t))
     # pairedMarkers uid (if k > 0 then c + 1 else c) name (k + 1) rest
         (removeNode (ident first) (removeNode (ident second) t))"
| "pairedMarkers uid c name k [lone] t = []"
| "pairedMarkers uid c name k [] t = []"

fun decodedMarkers ::
  "(nat \<Rightarrow> string) \<Rightarrow> nat \<Rightarrow> (string \<times> node list) list \<Rightarrow> node list \<Rightarrow> (string \<times> range) list" where
  "decodedMarkers uid c [] t = []"
| "decodedMarkers uid c ((name, sentinels) # groups) t =
     pairedMarkers uid c name 0 sentinels t
     @ decodedMarkers uid (c + (length sentinels div 2 - 1)) groups
         (fold (\<lambda>x. removeNode (ident x)) sentinels t)"



text \<open>A row of two replaced cells with five sentinels of one name, and an identifier generator.\<close>

definition rowCells :: "node list" where
  "rowCells =
     [Element 3 ''tableCell'' []
        [Element 4 ''paragraph'' []
           [tableFakeMarker 20 ''comment:t:1'', Text ''a'', tableFakeMarker 21 ''comment:t:1'']],
      Element 5 ''tableCell'' []
        [Element 6 ''paragraph'' []
           [tableFakeMarker 22 ''comment:t:1'', Text ''a'', tableFakeMarker 23 ''comment:t:1'',
            tableFakeMarker 24 ''comment:t:1'']]]"

definition countingUid :: "nat \<Rightarrow> string" where
  "countingUid k = CHR ''e'' # replicate (Suc k) (CHR ''x'')"

definition rowTable :: "node list" where
  "rowTable = [Element 1 ''table'' [] [Element 2 ''tableRow'' [] rowCells]]"

section \<open>Tables and the table walker\<close>

text \<open>
  A table is its rows, a row is its cells. A cell has an identity, its spans, its other
  attributes and its children.
\<close>

record cell =
  cellId :: nat
  rowspan :: nat
  colspan :: nat
  cellAttributes :: "(string \<times> string) list"
  cellChildren :: "node list"

type_synonym tableRows = "cell list list"

text \<open>
  Modelled from the spec: \<^verbatim>\<open>TableWalker\<close> (\<^verbatim>\<open>tablewalker.ts\<close>) is not part of the sources at hand.
  It yields the slots of a table in row-major order and resolves, for every slot, the cell that
  is anchored at it or spans over it; with \<^verbatim>\<open>includeAllSlots\<close> every slot of the region is
  yielded, otherwise a cell is yielded once, at its anchor slot. A slot also knows the index,
  among the children of its row, of the cell that is or would be placed at it
  (\<^verbatim>\<open>getPositionBefore\<close>). Cells have spans of at least one.
\<close>

record tableSlot =
  slotCell :: cell
  slotRow :: nat
  slotColumn :: nat
  cellAnchorRow :: nat
  cellAnchorColumn :: nat
  slotCellIndex :: nat

definition isAnchor :: "tableSlot \<Rightarrow> bool" where
  "isAnchor s = (slotRow s = cellAnchorRow s \<and> slotColumn s = cellAnchorColumn s)"

definition getPositionBefore :: "tableSlot \<Rightarrow> nat \<times> nat" where
  "getPositionBefore s = (slotRow s, slotCellIndex s)"

text \<open>
  One row: \<open>spanned\<close> maps the columns taken by cells that span down from earlier rows to those
  cells; the other columns are filled, left to right, by the cells of the row.
\<close>

lemma spanned_count_mono:
  "length (filter (\<lambda>e. (column :: nat) + k \<le> fst e) spanned)
     \<le> length (filter (\<lambda>e. column \<le> fst e) spanned)"
  by (induction spanned) auto

lemma spanned_count_step:
  "map_of spanned (column :: nat) = Some d \<Longrightarrow>
     length (filter (\<lambda>e. Suc column \<le> fst e) spanned)
       < length (filter (\<lambda>e. column \<le> fst e) spanned)"
proof (induction spanned)
  case Nil
  then show ?case by simp
next
  case (Cons a spanned)
  have le: "length (filter (\<lambda>e. Suc column \<le> fst e) spanned)
      \<le> length (filter (\<lambda>e. column \<le> fst e) spanned)"
    using spanned_count_mono[of column 1 spanned] by simp
  show ?case
  proof (cases "fst a = column")
    case True
    with le show ?thesis by simp
  next
    case False
    with Cons.prems have "map_of spanned column = Some d" by (cases a) (auto split: if_splits)
    from Cons.IH[OF this] show ?thesis by simp
  qed
qed

function walkRow ::
  "nat \<Rightarrow> (nat \<times> cell \<times> nat \<times> nat) list \<Rightarrow> cell list \<Rightarrow> nat \<Rightarrow> nat \<Rightarrow> tableSlot list" where
  "walkRow r spanned cells column cellIndex =
     (case map_of spanned column of
        Some (c, anchorRow, anchorColumn) \<Rightarrow>
          \<lparr>slotCell = c, slotRow = r, slotColumn = column, cellAnchorRow = anchorRow,
           cellAnchorColumn = anchorColumn, slotCellIndex = cellIndex\<rparr>
          # walkRow r spanned cells (column + 1) cellIndex
      | None \<Rightarrow>
          (case cells of
             [] \<Rightarrow> []
           | c # rest \<Rightarrow>
               map (\<lambda>j. \<lparr>slotCell = c, slotRow = r, slotColumn = column + j, cellAnchorRow = r,
                           cellAnchorColumn = column, slotCellIndex = cellIndex\<rparr>)
                 [0..<max 1 (colspan c)]
               @ walkRow r spanned rest (column + max 1 (colspan c)) (cellIndex + 1)))"
  by pat_completeness auto
termination
proof (relation "measure (\<lambda>(r, spanned, cells, column, cellIndex).
    length cells + length (filter (\<lambda>e. column \<le> fst e) spanned))")
qed (auto simp: spanned_count_mono less_Suc_eq_le add_le_mono intro!: spanned_count_step trans_le_add2)

text \<open>The slots that the anchor slots of a row take in the rows below it.\<close>

definition spansBelow :: "tableSlot list \<Rightarrow> ((nat \<times> nat) \<times> cell \<times> nat \<times> nat) list" where
  "spansBelow slots =
     concat (map (\<lambda>s.
        if isAnchor s then
          concat (map (\<lambda>i. map (\<lambda>j. ((slotRow s + i, slotColumn s + j),
                                        (slotCell s, slotRow s, slotColumn s)))
                               [0..<max 1 (colspan (slotCell s))])
                      [1..<max 1 (rowspan (slotCell s))])
        else []) (rev slots))"

fun walkRows ::
  "nat \<Rightarrow> ((nat \<times> nat) \<times> cell \<times> nat \<times> nat) list \<Rightarrow> tableRows \<Rightarrow> tableSlot list" where
  "walkRows r spans [] = []"
| "walkRows r spans (row # rest) =
     (let slots = walkRow r (map (\<lambda>((r', c), d). (c, d)) (filter (\<lambda>((r', c), d). r' = r) spans)) row 0 0
      in slots @ walkRows (r + 1) (spansBelow slots @ spans) rest)"

text \<open>
  \<^verbatim>\<open>new TableWalker( table, { startRow, endRow, startColumn, endColumn, includeAllSlots } )\<close>,
  an end that is not given as \<open>None\<close>.
\<close>

definition tableWalker ::
  "tableRows \<Rightarrow> nat \<Rightarrow> nat option \<Rightarrow> nat \<Rightarrow> nat option \<Rightarrow> bool \<Rightarrow> tableSlot list" where
  "tableWalker t startRow endRow startColumn endColumn includeAllSlots =
     filter (\<lambda>s. startRow \<le> slotRow s \<and> (case endRow of None \<Rightarrow> True | Some e \<Rightarrow> slotRow s \<le> e) \<and>
                 startColumn \<le> slotColumn s \<and>
                 (case endColumn of None \<Rightarrow> True | Some e \<Rightarrow> slotColumn s \<le> e) \<and>
                 (includeAllSlots \<or> isAnchor s))
       (walkRows 0 [] t)"

definition plainCell :: "nat \<Rightarrow> string \<Rightarrow> cell" where
  "plainCell i s = \<lparr>cellId = i, rowspan = 1, colspan = 1, cellAttributes = [],
     cellChildren = [Element (100 + i) ''paragraph'' [] [Text s]]\<rparr>"

section \<open>GridTransplantEngine: \<^verbatim>\<open>_replaceSelectedCellsWithPasted\<close>\<close>

record selection =
  firstRow :: nat
  lastRow :: nat
  firstColumn :: nat
  lastColumn :: nat

text \<open>
  \<^verbatim>\<open>createLocationMap\<close>: a \<open>height\<close> by \<open>width\<close> array of \<^verbatim>\<open>null\<close>, then
  \<^verbatim>\<open>map[ row ][ column ] = cell\<close> for every slot the walker yields for the pasted table. A row
  beyond the height is a \<^verbatim>\<open>TypeError\<close>; a column beyond the width extends the row.
\<close>

definition setColumn :: "nat \<Rightarrow> 'a \<Rightarrow> 'a option list \<Rightarrow> 'a option list" where
  "setColumn i v xs =
     (if i < length xs then xs[i := Some v]
      else xs @ replicate (i - length xs) None @ [Some v])"

fun fillLocationMap :: "tableSlot list \<Rightarrow> cell option list list \<Rightarrow> error + cell option list list" where
  "fillLocationMap [] m = Inr m"
| "fillLocationMap (s # rest) m =
     (if slotRow s < length m
      then fillLocationMap rest (m[slotRow s := setColumn (slotColumn s) (slotCell s) (m ! slotRow s)])
      else Inl TypeError)"

definition createLocationMap :: "tableRows \<Rightarrow> nat \<Rightarrow> nat \<Rightarrow> error + cell option list list" where
  "createLocationMap t width height =
     fillLocationMap (tableWalker t 0 None 0 None False) (replicate height (replicate width None))"

text \<open>
  \<^verbatim>\<open>pastedTableLocationMap[ pastedRow % pastedHeight ][ pastedColumn % pastedWidth ]\<close>; a remainder
  by zero is \<^verbatim>\<open>NaN\<close>, which indexes nothing.
\<close>

definition lookupPastedCell ::
  "cell option list list \<Rightarrow> nat \<Rightarrow> nat \<Rightarrow> nat \<Rightarrow> nat \<Rightarrow> error + cell option" where
  "lookupPastedCell m pastedRow pastedColumn pastedWidth pastedHeight =
     (if pastedHeight = 0 \<or> pastedRow mod pastedHeight \<ge> length m then Inl TypeError
      else if pastedWidth = 0 \<or> pastedColumn mod pastedWidth \<ge> length (m ! (pastedRow mod pastedHeight))
      then Inr None
      else Inr (m ! (pastedRow mod pastedHeight) ! (pastedColumn mod pastedWidth)))"

text \<open>
  Modelled from the spec: \<^verbatim>\<open>trimTableCellIfNeeded\<close> (\<^verbatim>\<open>utils/structure.ts\<close>) is not part of the
  sources at hand. It cuts the spans of a cell placed at \<open>(row, column)\<close> so that the cell does
  not reach past the last row and the last column of the selection.
\<close>

definition trimTableCellIfNeeded :: "cell \<Rightarrow> nat \<Rightarrow> nat \<Rightarrow> nat \<Rightarrow> nat \<Rightarrow> cell" where
  "trimTableCellIfNeeded c row column limitRow limitColumn =
     c\<lparr>colspan := (if column + colspan c - 1 > limitColumn then limitColumn - column + 1 else colspan c),
       rowspan := (if row + rowspan c - 1 > limitRow then limitRow - row + 1 else rowspan c)\<rparr>"

text \<open>
  The state of the slot walk: the rows of the selected table, the next fresh identity for
  \<^verbatim>\<open>writer.cloneElement\<close>, the cells to select, and the insert position (a row and an index
  among its cells), not set before the first slot of a row is met.
\<close>

record replaceState =
  tableOf :: tableRows
  nextCellId :: nat
  cellsToSelect :: "cell list"
  insertPosition :: "(nat \<times> nat) option"

definition removeCell :: "cell \<Rightarrow> tableRows \<Rightarrow> tableRows" where
  "removeCell c t = map (filter (\<lambda>x. cellId x \<noteq> cellId c)) t"

definition insertCell :: "cell \<Rightarrow> nat \<times> nat \<Rightarrow> tableRows \<Rightarrow> tableRows option" where
  "insertCell c pos t =
     (case pos of (r, i) \<Rightarrow>
        if r < length t \<and> i \<le> length (t ! r)
        then Some (t[r := take i (t ! r) @ [c] @ drop i (t ! r)])
        else None)"

text \<open>\<^verbatim>\<open>writer.cloneElement( pastedCell )\<close>: the same attributes and children under a new identity.\<close>

definition cloneElement :: "nat \<Rightarrow> cell \<Rightarrow> cell" where
  "cloneElement i c = c\<lparr>cellId := i\<rparr>"

text \<open>\<^verbatim>\<open>_replaceTableSlotCell\<close>: the new rows and the inserted cell, if any.\<close>

definition replaceTableSlotCell ::
  "tableSlot \<Rightarrow> cell option \<Rightarrow> (nat \<times> nat) option \<Rightarrow> tableRows \<Rightarrow> error + (tableRows \<times> cell option)" where
  "replaceTableSlotCell tableSlot cellToInsert insertPos t =
     (let t1 = (if isAnchor tableSlot then removeCell (slotCell tableSlot) t else t) in
      case cellToInsert of
        None \<Rightarrow> Inr (t1, None)
      | Some c \<Rightarrow>
          (case insertPos of
             None \<Rightarrow> Inl TypeError
           | Some pos \<Rightarrow>
               (case insertCell c pos t1 of
                  None \<Rightarrow> Inl InvalidPosition
                | Some t2 \<Rightarrow> Inr (t2, Some c))))"

text \<open>The loop over \<^verbatim>\<open>selectedTableMap\<close>, lines 343 to 374.\<close>

fun replaceSlots ::
  "selection \<Rightarrow> cell option list list \<Rightarrow> nat \<Rightarrow> nat \<Rightarrow> tableSlot list \<Rightarrow> replaceState
     \<Rightarrow> error + replaceState" where
  "replaceSlots sel m pastedWidth pastedHeight [] st = Inr st"
| "replaceSlots sel m pastedWidth pastedHeight (tableSlot # rest) st =
     (let insertPos = (if slotColumn tableSlot = firstColumn sel
                       then Some (getPositionBefore tableSlot) else insertPosition st);
          pastedRow = slotRow tableSlot - firstRow sel;
          pastedColumn = slotColumn tableSlot - firstColumn sel
      in case lookupPastedCell m pastedRow pastedColumn pastedWidth pastedHeight of
           Inl e \<Rightarrow> Inl e
         | Inr pastedCell \<Rightarrow>
             (let cellToInsert = map_option (cloneElement (nextCellId st)) pastedCell;
                  nextId' = (if pastedCell = None then nextCellId st else Suc (nextCellId st))
              in case replaceTableSlotCell tableSlot cellToInsert insertPos (tableOf st) of
                   Inl e \<Rightarrow> Inl e
                 | Inr (t1, None) \<Rightarrow>
                     replaceSlots sel m pastedWidth pastedHeight rest
                       (st\<lparr>tableOf := t1, nextCellId := nextId', insertPosition := insertPos\<rparr>)
                 | Inr (t1, Some newTableCell) \<Rightarrow>
                     (let trimmed = trimTableCellIfNeeded newTableCell (slotRow tableSlot)
                                      (slotColumn tableSlot) (lastRow sel) (lastColumn sel);
                          t2 = map (map (\<lambda>x. if cellId x = cellId newTableCell then trimmed else x)) t1
                      in replaceSlots sel m pastedWidth pastedHeight rest
                           (st\<lparr>tableOf := t2, nextCellId := nextId',
                              cellsToSelect := cellsToSelect st @ [trimmed],
                              insertPosition :=
                                map_option (\<lambda>(r, i). (r, i + 1)) insertPos\<rparr>))))"

text \<open>
  \<^verbatim>\<open>_replaceSelectedCellsWithPasted\<close>: the location map of the pasted table, the slots of the
  selection with \<^verbatim>\<open>includeAllSlots\<close>, the loop, and the splits at the heading rows and the
  heading columns that cross the selection. \<^verbatim>\<open>doHorizontalSplit\<close> and \<^verbatim>\<open>doVerticalSplit\<close> work
  on the tree of the selected table through helpers of \<^verbatim>\<open>utils/structure.ts\<close>; here they are
  the parameters \<open>horizontalSplit\<close> and \<open>verticalSplit\<close>, which give the rows after the split and
  the new cells. \<open>headingRows\<close> and \<open>headingColumns\<close> are the two attributes of the selected table,
  read as numbers.
\<close>

definition replaceSelectedCellsWithPasted ::
  "(tableRows \<Rightarrow> nat \<Rightarrow> nat \<times> nat \<Rightarrow> nat \<Rightarrow> tableRows \<times> cell list) \<Rightarrow>
   (tableRows \<Rightarrow> nat \<Rightarrow> nat \<times> nat \<Rightarrow> tableRows \<times> cell list) \<Rightarrow>
   tableRows \<Rightarrow> nat \<Rightarrow> nat \<Rightarrow> tableRows \<Rightarrow> nat \<Rightarrow> nat \<Rightarrow> selection \<Rightarrow> nat \<Rightarrow> error + replaceState" where
  "replaceSelectedCellsWithPasted horizontalSplit verticalSplit pastedTable pastedWidth pastedHeight
       selectedTable headingRows headingColumns sel fresh =
     (case createLocationMap pastedTable pastedWidth pastedHeight of
        Inl e \<Rightarrow> Inl e
      | Inr pastedTableLocationMap \<Rightarrow>
          (case replaceSlots sel pastedTableLocationMap pastedWidth pastedHeight
                  (tableWalker selectedTable (firstRow sel) (Some (lastRow sel))
                     (firstColumn sel) (Some (lastColumn sel)) True)
                  \<lparr>tableOf = selectedTable, nextCellId = fresh, cellsToSelect = [],
                   insertPosition = None\<rparr> of
             Inl e \<Rightarrow> Inl e
           | Inr st \<Rightarrow>
               (let areHeadingRowsIntersectingSelection =
                      (firstRow sel < headingRows \<and> headingRows \<le> lastRow sel);
                    areHeadingColumnsIntersectingSelection =
                      (firstColumn sel < headingColumns \<and> headingColumns \<le> lastColumn sel);
                    st1 = (if areHeadingRowsIntersectingSelection
                           then (case horizontalSplit (tableOf st) headingRows
                                        (firstColumn sel, lastColumn sel) (firstRow sel) of
                                   (t1, newCells) \<Rightarrow>
                                     st\<lparr>tableOf := t1, cellsToSelect := cellsToSelect st @ newCells\<rparr>)
                           else st);
                    st2 = (if areHeadingColumnsIntersectingSelection
                           then (case verticalSplit (tableOf st1) headingColumns
                                        (firstRow sel, lastRow sel) of
                                   (t2, newCells) \<Rightarrow>
                                     st1\<lparr>tableOf := t2, cellsToSelect := cellsToSelect st1 @ newCells\<rparr>)
                           else st1)
                in Inr st2)))"

text \<open>A cell that is a clone of another: the same spans, attributes and children.\<close>

definition isCloneOf :: "cell \<Rightarrow> cell \<Rightarrow> bool" where
  "isCloneOf x c =
     (rowspan x = rowspan c \<and> colspan x = colspan c \<and>
      cellAttributes x = cellAttributes c \<and> cellChildren x = cellChildren c)"

text \<open>The slots of a selection, row by row.\<close>

definition rectangleSlots :: "selection \<Rightarrow> (nat \<times> nat) list" where
  "rectangleSlots sel =
     concat (map (\<lambda>i. map (\<lambda>j. (i, j)) [firstColumn sel..<Suc (lastColumn sel)])
               [firstRow sel..<Suc (lastRow sel)])"

text \<open>Tables for running the slot walk.\<close>

definition threeByThree :: tableRows where
  "threeByThree =
     [[plainCell 0 ''00'', plainCell 1 ''01'', plainCell 2 ''02''],
      [plainCell 10 ''10'', plainCell 11 ''11'', plainCell 12 ''12''],
      [plainCell 20 ''20'', plainCell 21 ''21'', plainCell 22 ''22'']]"

definition innerSelection :: selection where
  "innerSelection = \<lparr>firstRow = 1, lastRow = 1, firstColumn = 1, lastColumn = 2\<rparr>"

definition tiledState :: replaceState where
  "tiledState =
     \<lparr>tableOf =
        [[plainCell 0 ''00'', plainCell 1 ''01'', plainCell 2 ''02''],
         [plainCell 10 ''10'', cloneElement 1000 (plainCell 50 ''x''),
          cloneElement 1001 (plainCell 50 ''x'')],
         [plainCell 20 ''20'', plainCell 21 ''21'', plainCell 22 ''22'']],
      nextCellId = 1002,
      cellsToSelect = [cloneElement 1000 (plainCell 50 ''x''), cloneElement 1001 (plainCell 50 ''x'')],
      insertPosition = Some (1, 3)\<rparr>"

section \<open>GridTransplantEngine: \<^verbatim>\<open>_onInsertContent\<close>\<close>

text \<open>
  The \<^verbatim>\<open>selectable\<close> argument: not given, the document selection, or another selection.
\<close>

datatype selectable = NoSelectable | DocumentSelection | OtherSelection

text \<open>
  What the handler leaves behind: whether it stopped the \<^verbatim>\<open>insertContent\<close> event (an event that
  is not stopped goes on to the default handling of \<^verbatim>\<open>model.insertContent\<close>), the model, and
  the pasted table if one was found.
\<close>

record 'm insertOutcome =
  eventStopped :: bool
  modelAfter :: 'm
  pastedTable :: "node option"

text \<open>
  \<^verbatim>\<open>_onInsertContent\<close>. The selected cells are what
  \<^verbatim>\<open>tableUtils.getSelectionAffectedTableCells( model.document.selection )\<close> answers. Parameters
  stand for what is not part of the sources at hand: \<open>hasContent\<close> (see the classifier),
  \<^verbatim>\<open>removeEmptyRowsColumns\<close>, which works on the pasted table, and \<open>change\<close>, the block run by
  \<^verbatim>\<open>model.change\<close> (markers to elements, \<^verbatim>\<open>_replaceSelectedCells\<close>, elements to markers).
\<close>

definition onInsertContent ::
  "(node list \<Rightarrow> bool) \<Rightarrow> (node \<Rightarrow> node) \<Rightarrow> (content \<Rightarrow> node \<Rightarrow> node list \<Rightarrow> 'm \<Rightarrow> error + 'm)
     \<Rightarrow> selectable \<Rightarrow> content \<Rightarrow> node list \<Rightarrow> 'm \<Rightarrow> error + 'm insertOutcome" where
  "onInsertContent hasContent removeEmptyRowsColumns change selectable content selectedTableCells m =
     (if selectable = OtherSelection
      then Inr \<lparr>eventStopped = False, modelAfter = m, pastedTable = None\<rparr>
      else case getTableIfOnlyTableInContent hasContent content of
        None \<Rightarrow> Inr \<lparr>eventStopped = False, modelAfter = m, pastedTable = None\<rparr>
      | Some pasted \<Rightarrow>
          if selectedTableCells = []
          then Inr \<lparr>eventStopped = False, modelAfter = m,
                    pastedTable = Some (removeEmptyRowsColumns pasted)\<rparr>
          else case change content pasted selectedTableCells m of
                 Inl e \<Rightarrow> Inl e
               | Inr m' \<Rightarrow> Inr \<lparr>eventStopped = True, modelAfter = m', pastedTable = Some pasted\<rparr>)"

section \<open>SelectionRectangularizer: \<^verbatim>\<open>prepareTableForPasting\<close>\<close>

text \<open>
  The rectangularizer looks at the geometry of the table only, so the table is modelled here by
  its layout: one entry for every cell, with the slot the cell is anchored at and its spans, as
  the walker reports them (row, column, \<^verbatim>\<open>cellHeight\<close>, \<^verbatim>\<open>cellWidth\<close>).
\<close>

record placedCell =
  cellRow :: nat
  cellColumn :: nat
  cellHeight :: nat
  cellWidth :: nat

type_synonym layout = "placedCell list"

text \<open>\<^verbatim>\<open>isAffectedBySelection( index, span, limit )\<close>, with \<open>limit = (first, last)\<close>.\<close>

definition isAffectedBySelection :: "nat \<Rightarrow> nat \<Rightarrow> nat \<times> nat \<Rightarrow> bool" where
  "isAffectedBySelection index span limit =
     (let endIndex = index + span - 1;
          first = fst limit;
          last = snd limit;
          isInsideSelection = (index \<ge> first \<and> index \<le> last);
          overlapsSelectionFromOutside = (index < first \<and> endIndex \<ge> first)
      in isInsideSelection \<or> overlapsSelectionFromOutside)"

text \<open>
  Modelled from the spec: \<^verbatim>\<open>getHorizontallyOverlappingCells\<close>, \<^verbatim>\<open>getVerticallyOverlappingCells\<close>,
  \<^verbatim>\<open>splitVertically\<close> and \<^verbatim>\<open>splitHorizontally\<close> (\<^verbatim>\<open>utils/structure.ts\<close>) are not part of the
  sources at hand. The first two detect the cells whose span crosses a column, respectively a
  row (the latter among the cells anchored from \<open>startRow\<close> on); a split at a row yields two
  cells of the original column span whose row spans add up to the original one, the second
  anchored at the row of the split, and a split at a column is the transpose.
\<close>

definition getHorizontallyOverlappingCells :: "layout \<Rightarrow> nat \<Rightarrow> placedCell list" where
  "getHorizontallyOverlappingCells t overlapColumn =
     filter (\<lambda>p. cellColumn p < overlapColumn \<and> overlapColumn < cellColumn p + cellWidth p) t"

definition getVerticallyOverlappingCells :: "layout \<Rightarrow> nat \<Rightarrow> nat \<Rightarrow> placedCell list" where
  "getVerticallyOverlappingCells t overlapRow startRow =
     filter (\<lambda>p. startRow \<le> cellRow p \<and> cellRow p < overlapRow \<and> overlapRow < cellRow p + cellHeight p) t"

definition splitVertically :: "placedCell \<Rightarrow> nat \<Rightarrow> placedCell \<times> placedCell" where
  "splitVertically p splitColumn =
     (p\<lparr>cellWidth := splitColumn - cellColumn p\<rparr>,
      p\<lparr>cellColumn := splitColumn, cellWidth := cellColumn p + cellWidth p - splitColumn\<rparr>)"

definition splitHorizontally :: "placedCell \<Rightarrow> nat \<Rightarrow> placedCell \<times> placedCell" where
  "splitHorizontally p splitRow =
     (p\<lparr>cellHeight := splitRow - cellRow p\<rparr>,
      p\<lparr>cellRow := splitRow, cellHeight := cellRow p + cellHeight p - splitRow\<rparr>)"

text \<open>
  \<^verbatim>\<open>doHorizontalSplit\<close> and \<^verbatim>\<open>doVerticalSplit\<close>: the table after the splits and the new cells
  (nothing is returned when the split row or column is the first one).
\<close>

definition doHorizontalSplit :: "layout \<Rightarrow> nat \<Rightarrow> nat \<times> nat \<Rightarrow> nat \<Rightarrow> layout \<times> placedCell list" where
  "doHorizontalSplit t splitRow limitColumns startRow =
     (if splitRow < 1 then (t, [])
      else
        (let overlappingCells = getVerticallyOverlappingCells t splitRow startRow;
             cellsToSplit = filter (\<lambda>p. isAffectedBySelection (cellColumn p) (cellWidth p) limitColumns)
                              overlappingCells
         in (concat (map (\<lambda>p. if p \<in> set cellsToSplit
                                then [fst (splitHorizontally p splitRow), snd (splitHorizontally p splitRow)]
                                else [p]) t),
             map (\<lambda>p. snd (splitHorizontally p splitRow)) cellsToSplit)))"

definition doVerticalSplit :: "layout \<Rightarrow> nat \<Rightarrow> nat \<times> nat \<Rightarrow> layout \<times> placedCell list" where
  "doVerticalSplit t splitColumn limitRows =
     (if splitColumn < 1 then (t, [])
      else
        (let overlappingCells = getHorizontallyOverlappingCells t splitColumn;
             cellsToSplit = filter (\<lambda>p. isAffectedBySelection (cellRow p) (cellHeight p) limitRows)
                              overlappingCells
         in (concat (map (\<lambda>p. if p \<in> set cellsToSplit
                                then [fst (splitVertically p splitColumn), snd (splitVertically p splitColumn)]
                                else [p]) t),
             map (\<lambda>p. snd (splitVertically p splitColumn)) cellsToSplit)))"

text \<open>\<^verbatim>\<open>splitCellsToRectangularSelection\<close>.\<close>

definition splitCellsToRectangularSelection :: "layout \<Rightarrow> selection \<Rightarrow> layout" where
  "splitCellsToRectangularSelection t dimensions =
     (let rowIndexes = (firstRow dimensions, lastRow dimensions);
          columnIndexes = (firstColumn dimensions, lastColumn dimensions);
          t1 = fst (doVerticalSplit t (firstColumn dimensions) rowIndexes);
          t2 = fst (doVerticalSplit t1 (lastColumn dimensions + 1) rowIndexes);
          t3 = fst (doHorizontalSplit t2 (firstRow dimensions) columnIndexes 0);
          t4 = fst (doHorizontalSplit t3 (lastRow dimensions + 1) columnIndexes (firstRow dimensions))
      in t4)"

text \<open>
  The cells a walk of the selection with \<^verbatim>\<open>includeAllSlots\<close> yields: for every slot of the
  rectangle, the cells of the layout that cover it.
\<close>

definition coversSlot :: "placedCell \<Rightarrow> nat \<times> nat \<Rightarrow> bool" where
  "coversSlot p s =
     (cellRow p \<le> fst s \<and> fst s < cellRow p + cellHeight p \<and>
      cellColumn p \<le> snd s \<and> snd s < cellColumn p + cellWidth p)"

definition walkAllSlots :: "layout \<Rightarrow> selection \<Rightarrow> placedCell list" where
  "walkAllSlots t sel = concat (map (\<lambda>s. filter (\<lambda>p. coversSlot p s) t) (rectangleSlots sel))"

text \<open>A cell crosses a boundary of the selection when it reaches out of the rectangle.\<close>

definition crossesBoundary :: "placedCell \<Rightarrow> selection \<Rightarrow> bool" where
  "crossesBoundary p sel =
     (cellRow p < firstRow sel \<or> lastRow sel < cellRow p + cellHeight p - 1 \<or>
      cellColumn p < firstColumn sel \<or> lastColumn sel < cellColumn p + cellWidth p - 1)"

text \<open>
  \<^verbatim>\<open>expandTableSize\<close>. What \<^verbatim>\<open>tableUtils\<close> does is not part of the sources at hand: the width and
  the height of the table (\<^verbatim>\<open>getColumns\<close>, \<^verbatim>\<open>getRows\<close>) are given, \<^verbatim>\<open>insertColumns\<close> and
  \<^verbatim>\<open>insertRows\<close> are parameters, called with the place and the number of columns or rows.
\<close>

definition expandTableSize ::
  "(layout \<Rightarrow> nat \<Rightarrow> nat \<Rightarrow> layout) \<Rightarrow> (layout \<Rightarrow> nat \<Rightarrow> nat \<Rightarrow> layout)
     \<Rightarrow> layout \<Rightarrow> nat \<Rightarrow> nat \<Rightarrow> nat \<Rightarrow> nat \<Rightarrow> layout" where
  "expandTableSize insertColumns insertRows t tableWidth tableHeight expectedHeight expectedWidth =
     (let t1 = (if expectedWidth > tableWidth
                then insertColumns t tableWidth (expectedWidth - tableWidth) else t)
      in if expectedHeight > tableHeight
         then insertRows t1 tableHeight (expectedHeight - tableHeight) else t1)"

text \<open>
  Modelled from the spec: \<^verbatim>\<open>TableUtils\<close> and \<^verbatim>\<open>utils/structure.ts\<close> are not part of the sources
  at hand. \<^verbatim>\<open>getRowIndexes\<close> and \<^verbatim>\<open>getColumnIndexes\<close> give the first and the last row and
  column that the selected cells are anchored at (the literal bounding box of anchors).
  \<^verbatim>\<open>adjustLastRowIndex\<close> looks at the cells anchored in the last row, between the first and the
  last column: when they span one row each the last row stays, otherwise it moves down by the
  span that they share; \<^verbatim>\<open>adjustLastColumnIndex\<close> is the transpose, between the first row and
  the last row as adjusted.
\<close>

definition getRowIndexes :: "placedCell list \<Rightarrow> nat \<times> nat" where
  "getRowIndexes cells = (Min (set (map cellRow cells)), Max (set (map cellRow cells)))"

definition getColumnIndexes :: "placedCell list \<Rightarrow> nat \<times> nat" where
  "getColumnIndexes cells = (Min (set (map cellColumn cells)), Max (set (map cellColumn cells)))"

definition adjustLastRowIndex :: "layout \<Rightarrow> selection \<Rightarrow> nat" where
  "adjustLastRowIndex t dimensions =
     (let lastRowMap = sort_key cellColumn
            (filter (\<lambda>p. cellRow p = lastRow dimensions \<and> firstColumn dimensions \<le> cellColumn p \<and>
                          cellColumn p \<le> lastColumn dimensions) t);
          everyCellHasSingleRowspan = list_all (\<lambda>p. cellHeight p = 1) lastRowMap
      in if everyCellHasSingleRowspan then lastRow dimensions
         else lastRow dimensions + (cellHeight (hd lastRowMap) - 1))"

definition adjustLastColumnIndex :: "layout \<Rightarrow> selection \<Rightarrow> nat" where
  "adjustLastColumnIndex t dimensions =
     (let lastColumnMap = sort_key cellRow
            (filter (\<lambda>p. cellColumn p = lastColumn dimensions \<and> firstRow dimensions \<le> cellRow p \<and>
                          cellRow p \<le> lastRow dimensions) t);
          everyCellHasSingleColspan = list_all (\<lambda>p. cellWidth p = 1) lastColumnMap
      in if everyCellHasSingleColspan then lastColumn dimensions
         else lastColumn dimensions + (cellWidth (hd lastColumnMap) - 1))"

text \<open>
  The rectangle that a list of cells spans, from the first row and column they are anchored at
  to the last row and column they reach; and whether they fill it: every slot of it is covered
  by one of them.
\<close>

definition spannedRectangle :: "placedCell list \<Rightarrow> selection" where
  "spannedRectangle cells =
     \<lparr>firstRow = Min (set (map cellRow cells)),
      lastRow = Max (set (map (\<lambda>p. cellRow p + cellHeight p - 1) cells)),
      firstColumn = Min (set (map cellColumn cells)),
      lastColumn = Max (set (map (\<lambda>p. cellColumn p + cellWidth p - 1) cells))\<rparr>"

definition fillsRectangle :: "placedCell list \<Rightarrow> bool" where
  "fillsRectangle cells =
     list_all (\<lambda>s. list_ex (\<lambda>p. coversSlot p s) cells) (rectangleSlots (spannedRectangle cells))"

text \<open>
  Modelled from the spec: \<^verbatim>\<open>isSelectionRectangular\<close> (\<^verbatim>\<open>TableUtils\<close>) says whether the selected
  cells are a fully occupied rectangle. It compares the area of the selected cells with the
  area of the rectangle they span; fewer than two cells, or cells that lie in different sections
  of the table (heading and body), are not a rectangular selection. Whether the cells lie in
  one section depends on the heading attributes of the table and is given.
\<close>

definition isSelectionRectangular :: "bool \<Rightarrow> placedCell list \<Rightarrow> bool" where
  "isSelectionRectangular inSameTableSection selectedTableCells =
     (if length selectedTableCells < 2 \<or> \<not> inSameTableSection then False
      else
        (let areaOfSelectedCells =
               sum_list (map (\<lambda>p. cellHeight p * cellWidth p) selectedTableCells);
             rectangle = spannedRectangle selectedTableCells;
             areaOfValidSelection =
               (lastRow rectangle - firstRow rectangle + 1) *
               (lastColumn rectangle - firstColumn rectangle + 1)
         in areaOfValidSelection = areaOfSelectedCells))"

text \<open>
  \<^verbatim>\<open>prepareTableForPasting\<close>: the table after the preparation and the selection it returns; with
  no selected cell, \<^verbatim>\<open>selectedTableCells[ 0 ].findAncestor\<close> is a \<^verbatim>\<open>TypeError\<close>. Given, from
  \<^verbatim>\<open>tableUtils\<close>: whether the selected cells lie in one section of the table, and the width and
  the height of the table.
\<close>

definition prepareTableForPasting ::
  "(layout \<Rightarrow> nat \<Rightarrow> nat \<Rightarrow> layout) \<Rightarrow> (layout \<Rightarrow> nat \<Rightarrow> nat \<Rightarrow> layout) \<Rightarrow> bool
     \<Rightarrow> placedCell list \<Rightarrow> nat \<times> nat \<Rightarrow> layout \<Rightarrow> nat \<Rightarrow> nat \<Rightarrow> error + (layout \<times> selection)" where
  "prepareTableForPasting insertColumns insertRows inSameTableSection
     selectedTableCells pastedDimensions selectedTable tableWidth tableHeight =
     (if selectedTableCells = [] then Inl TypeError
      else
     (let pastedHeight = fst pastedDimensions;
          pastedWidth = snd pastedDimensions;
          columnIndexes = getColumnIndexes selectedTableCells;
          rowIndexes = getRowIndexes selectedTableCells;
          selection0 = \<lparr>firstRow = fst rowIndexes, lastRow = snd rowIndexes,
                        firstColumn = fst columnIndexes, lastColumn = snd columnIndexes\<rparr>;
          shouldExpandSelection = (length selectedTableCells = 1);
          selection1 = (if shouldExpandSelection
                        then selection0\<lparr>lastRow := lastRow selection0 + pastedHeight - 1,
                                         lastColumn := lastColumn selection0 + pastedWidth - 1\<rparr>
                        else selection0);
          table1 = (if shouldExpandSelection
                    then expandTableSize insertColumns insertRows selectedTable tableWidth tableHeight
                           (lastRow selection1 + 1) (lastColumn selection1 + 1)
                    else selectedTable)
      in if shouldExpandSelection \<or>
            \<not> isSelectionRectangular inSameTableSection selectedTableCells
         then Inr (splitCellsToRectangularSelection table1 selection1, selection1)
         else (let selection2 = selection1\<lparr>lastRow := adjustLastRowIndex table1 selection1\<rparr>
               in Inr (table1, selection2\<lparr>lastColumn := adjustLastColumnIndex table1 selection2\<rparr>))))"

text \<open>A rectangle is valid when no cell that a walk of all its slots yields crosses its boundary.\<close>

definition validRectangle :: "layout \<Rightarrow> selection \<Rightarrow> bool" where
  "validRectangle t sel = (\<forall>q \<in> set (walkAllSlots t sel). \<not> crossesBoundary q sel)"

text \<open>A table of three rows and three columns with a cell of two columns in its middle row.\<close>

definition place :: "nat \<Rightarrow> nat \<Rightarrow> nat \<Rightarrow> nat \<Rightarrow> placedCell" where
  "place r c h w = \<lparr>cellRow = r, cellColumn = c, cellHeight = h, cellWidth = w\<rparr>"

definition mergedLayout :: layout where
  "mergedLayout =
     [place 0 0 1 1, place 0 1 1 1, place 0 2 1 1,
      place 1 0 1 2, place 1 2 1 1,
      place 2 0 1 1, place 2 1 1 1, place 2 2 1 1]"

definition splitLayout :: layout where
  "splitLayout =
     [place 0 0 1 1, place 0 1 1 1, place 0 2 1 1,
      place 1 0 1 1, place 1 1 1 1, place 1 2 1 1,
      place 2 0 1 1, place 2 1 1 1, place 2 2 1 1]"

text \<open>
  A table of three rows and two columns whose second row holds two cells of two rows each
  (the last row of a selection of these two is implied by their spans).
\<close>

definition tallLayout :: layout where
  "tallLayout = [place 0 0 1 1, place 0 1 1 1, place 1 0 2 1, place 1 1 2 1]"

section \<open>Properties of the classifier\<close>

lemma items_following:
  "items cs = a @ g # rest \<Longrightarrow> \<exists>after. rest = items (childrenOf g) @ after"
proof (induction cs arbitrary: a rest rule: items.induct)
  case 1
  then show ?case by simp
next
  case (2 s ns)
  show ?case
  proof (cases a)
    case Nil
    with "2.prems" have "g = Text s" by simp
    then show ?thesis by simp
  next
    case (Cons x a')
    with "2.prems" have "items ns = a' @ g # rest" by simp
    then show ?thesis by (rule "2.IH")
  qed
next
  case (3 i n as cs ns)
  show ?case
  proof (cases a)
    case Nil
    with "3.prems" have "g = Element i n as cs" and "rest = items cs @ items ns" by simp_all
    then show ?thesis by simp
  next
    case (Cons x a')
    with "3.prems" have "items cs @ items ns = a' @ g # rest" by simp
    then consider u where "items cs = a' @ u" "u @ items ns = g # rest"
      | u where "items cs @ u = a'" "items ns = u @ g # rest"
      by (auto simp: append_eq_append_conv2)
    then show ?thesis
    proof cases
      case 1
      show ?thesis
      proof (cases u)
        case Nil
        with 1 have "items ns = [] @ g # rest" by simp
        then show ?thesis by (rule "3.IH"(2))
      next
        case (Cons y u')
        with 1 have "items cs = a' @ g # u'" and r: "rest = u' @ items ns" by simp_all
        from "3.IH"(1)[OF this(1)] obtain after where "u' = items (childrenOf g) @ after" by blast
        with r have "rest = items (childrenOf g) @ (after @ items ns)" by simp
        then show ?thesis by blast
      qed
    next
      case 2
      from "3.IH"(2)[OF 2(2)] show ?thesis .
    qed
  qed
qed

lemma scanForTable_Some:
  "scanForTable hasContent pre xs = Some g \<longleftrightarrow>
     (\<exists>a rest. xs = a @ g # rest \<and> isTable g \<and> filter isTable a = [] \<and>
        \<not> hasContent (pre @ a) \<and> \<not> hasContent (drop (length (items (childrenOf g))) rest))"
proof (induction xs arbitrary: pre)
  case Nil
  then show ?case by simp
next
  case (Cons x xs)
  show ?case
  proof (cases "isTable x")
    case True
    have "(\<exists>a rest. x # xs = a @ g # rest \<and> isTable g \<and> filter isTable a = [] \<and>
        \<not> hasContent (pre @ a) \<and> \<not> hasContent (drop (length (items (childrenOf g))) rest))
      \<longleftrightarrow> (x = g \<and> \<not> hasContent pre \<and> \<not> hasContent (drop (length (items (childrenOf x))) xs))"
      (is "?L \<longleftrightarrow> ?R")
    proof
      assume ?L
      then obtain a rest where ab: "x # xs = a @ g # rest" "filter isTable a = []"
        "\<not> hasContent (pre @ a)" "\<not> hasContent (drop (length (items (childrenOf g))) rest)"
        by blast
      have "a = []" using ab(1,2) True by (cases a) auto
      with ab show ?R by simp
    next
      assume r: ?R
      with True show ?L by (intro exI[of _ "[]"] exI[of _ xs]) auto
    qed
    with True show ?thesis by auto
  next
    case False
    have "(\<exists>a rest. x # xs = a @ g # rest \<and> isTable g \<and> filter isTable a = [] \<and>
        \<not> hasContent (pre @ a) \<and> \<not> hasContent (drop (length (items (childrenOf g))) rest))
      \<longleftrightarrow>
       (\<exists>a rest. xs = a @ g # rest \<and> isTable g \<and> filter isTable a = [] \<and>
        \<not> hasContent ((pre @ [x]) @ a) \<and> \<not> hasContent (drop (length (items (childrenOf g))) rest))"
      (is "?L \<longleftrightarrow> ?R")
    proof
      assume ?L
      then obtain a rest where ab: "x # xs = a @ g # rest" "isTable g" "filter isTable a = []"
        "\<not> hasContent (pre @ a)" "\<not> hasContent (drop (length (items (childrenOf g))) rest)"
        by blast
      from ab(1,2) False obtain a' where "a = x # a'" by (cases a) auto
      with ab False show ?R by (intro exI[of _ a'] exI[of _ rest]) auto
    next
      assume ?R
      then obtain a rest where ab: "xs = a @ g # rest" "isTable g" "filter isTable a = []"
        "\<not> hasContent ((pre @ [x]) @ a)" "\<not> hasContent (drop (length (items (childrenOf g))) rest)"
        by blast
      with False show ?L by (intro exI[of _ "x # a"] exI[of _ rest]) auto
    qed
    with False Cons.IH[of "pre @ [x]"] show ?thesis by simp
  qed
qed

lemma scan_items:
  "scanForTable hasContent [] (items cs) = Some g \<longleftrightarrow> firstTableAmong hasContent (items cs) g"
proof
  assume "scanForTable hasContent [] (items cs) = Some g"
  then obtain a rest where ab: "items cs = a @ g # rest" "isTable g" "filter isTable a = []"
    "\<not> hasContent a" "\<not> hasContent (drop (length (items (childrenOf g))) rest)"
    unfolding scanForTable_Some by auto
  from items_following[OF ab(1)] obtain after where after: "rest = items (childrenOf g) @ after"
    by blast
  with ab show "firstTableAmong hasContent (items cs) g"
    unfolding firstTableAmong_def by (intro exI[of _ a] exI[of _ after]) simp
next
  assume "firstTableAmong hasContent (items cs) g"
  then obtain before after where ba: "items cs = before @ g # items (childrenOf g) @ after"
    "isTable g" "filter isTable before = []" "\<not> hasContent before" "\<not> hasContent after"
    unfolding firstTableAmong_def by blast
  then show "scanForTable hasContent [] (items cs) = Some g"
    unfolding scanForTable_Some
    by (intro exI[of _ before] exI[of _ "items (childrenOf g) @ after"]) simp
qed

lemma first_of_single:
  assumes "firstTableAmong hasContent (items [x]) g" and "isTable x"
  shows "x = g"
proof -
  from assms(1) obtain before after where ba: "items [x] = before @ g # items (childrenOf g) @ after"
    "filter isTable before = []" unfolding firstTableAmong_def by blast
  from assms(2) obtain i n as cs where x: "x = Element i n as cs" by (cases x) auto
  show ?thesis
  proof (cases before)
    case Nil
    with ba x show ?thesis by simp
  next
    case (Cons y ys)
    with ba x have "y = x" by simp
    with Cons ba(2) assms(2) show ?thesis by simp
  qed
qed

text \<open>
  C9, as amended. The classifier returns the table exactly when the content is a table itself,
  or a container whose only child is a table, or a container in which the first table in
  document order among all the nodes below it, at any depth, has no content (white space
  ignored) among the nodes before it and among the nodes after it; in every other case it
  returns nothing. \<open>hasContent\<close> is any query of the engine on the items of a range.
\<close>

theorem classifier_characterisation:
  "getTableIfOnlyTableInContent hasContent c = Some g \<longleftrightarrow>
     (c = Item g \<and> isTable g) \<or>
     (\<exists>cs. containerChildren c = Some cs \<and>
        ((cs = [g] \<and> isTable g) \<or> firstTableAmong hasContent (items cs) g))"
proof -
  have single: "tableInChildren hasContent cs = Some g \<longleftrightarrow>
      (cs = [g] \<and> isTable g) \<or> firstTableAmong hasContent (items cs) g" for cs
  proof (cases "\<exists>x. cs = [x] \<and> isTable x")
    case True
    then obtain x where x: "cs = [x]" "isTable x" by blast
    then have "tableInChildren hasContent cs = Some x" by (simp add: tableInChildren_def)
    with x first_of_single[of hasContent x g] show ?thesis by auto
  next
    case False
    then have "tableInChildren hasContent cs = scanForTable hasContent [] (items cs)"
      by (auto simp: tableInChildren_def split: list.splits)
    with False scan_items[of hasContent cs g] show ?thesis by auto
  qed
  show ?thesis
  proof (cases c)
    case (Fragment cs)
    then show ?thesis using single by simp
  next
    case (Item n)
    show ?thesis
    proof (cases n)
      case (Text s)
      with Item show ?thesis by auto
    next
      case (Element i nm as cs)
      with Item single[of cs] show ?thesis by (cases g) auto
    qed
  qed
qed

theorem classifier_characterisation_witness:
  "getTableIfOnlyTableInContent (hasContentIgnoringWhitespaces [''table''])
     (Fragment [Text '' '', smallTable, Text [CHR 0x0A]]) = Some smallTable \<and>
   firstTableAmong (hasContentIgnoringWhitespaces [''table''])
     (items [Text '' '', smallTable, Text [CHR 0x0A]]) smallTable"
proof -
  have run: "getTableIfOnlyTableInContent (hasContentIgnoringWhitespaces [''table''])
     (Fragment [Text '' '', smallTable, Text [CHR 0x0A]]) = Some smallTable"
    by (simp add: tableInChildren_def hasContentIgnoringWhitespaces_def isWhitespace_def
        smallTable_def)
  from run classifier_characterisation
    [of "hasContentIgnoringWhitespaces [''table'']"
        "Fragment [Text '' '', smallTable, Text [CHR 0x0A]]" smallTable]
  show ?thesis by simp
qed

text \<open>
  C9, as stated, fails: the scan is not limited to the top-level children. A fragment whose
  only child is a block quote that holds a table is neither a table, nor a container whose
  single child is a table, nor a container with a table among its top-level children; the
  classifier returns the table.
\<close>

theorem nested_table_counterexample:
  "getTableIfOnlyTableInContent (hasContentIgnoringWhitespaces [''table''])
     (Fragment quotedTable) = Some smallTable \<and>
   quotedTable \<noteq> [smallTable] \<and>
   filter isTable quotedTable = []"
  by (simp add: tableInChildren_def hasContentIgnoringWhitespaces_def isWhitespace_def
      smallTable_def quotedTable_def)

text \<open>
  The classifier examples of the spec, run on the model, and the case of a second table: with a
  schema in which a table is an object the second table is content after the first.
\<close>

lemma nested_table_not_top_level:
  "\<not> onlyTableAmong hasContent quotedTable smallTable"
proof
  assume "onlyTableAmong hasContent quotedTable smallTable"
  then obtain before after where "quotedTable = before @ smallTable # after"
    unfolding onlyTableAmong_def by blast
  then have "smallTable \<in> set quotedTable" by (metis in_set_conv_decomp)
  then show False by (simp add: quotedTable_def smallTable_def)
qed

lemma classifier_example_table_alone:
  "getTableIfOnlyTableInContent (hasContentIgnoringWhitespaces [''table'']) (Item smallTable)
     = Some smallTable"
  by (simp add: smallTable_def)

lemma classifier_example_table_then_paragraph:
  "getTableIfOnlyTableInContent (hasContentIgnoringWhitespaces [''table''])
     (Fragment [smallTable, Element 5 ''paragraph'' [] [Text ''foo'']]) = None"
  by (simp add: tableInChildren_def hasContentIgnoringWhitespaces_def isWhitespace_def
      smallTable_def)

lemma classifier_example_two_tables:
  "getTableIfOnlyTableInContent (hasContentIgnoringWhitespaces [''table''])
     (Fragment [smallTable, Element 5 ''table'' [] []]) = None"
  by (simp add: tableInChildren_def hasContentIgnoringWhitespaces_def smallTable_def)

lemma second_table_is_content:
  assumes "\<exists>x \<in> set after. isTable x"
  shows "hasContentIgnoringWhitespaces (''table'' # objects) after"
proof -
  from assms obtain x where x: "x \<in> set after" "isTable x" by blast
  have "isContent (''table'' # objects) x" using x(2) by (cases x) auto
  with x show ?thesis unfolding hasContentIgnoringWhitespaces_def by blast
qed

section \<open>Properties of the encode step\<close>

lemma set_insertFromRight: "set (insertFromRight x ys) = insert x (set ys)"
  by (induction ys) auto

lemma set_foldl_insertFromRight:
  "set (foldl (\<lambda>acc x. insertFromRight x acc) acc xs) = set acc \<union> set xs"
  by (induction xs arbitrary: acc) (auto simp: set_insertFromRight)

lemma set_sortBackwards: "set (sortBackwards xs) = set xs"
  by (simp add: sortBackwards_def set_foldl_insertFromRight)

lemma insertFakeMarkersLoop_insertions:
  "insertFakeMarkersLoop w mp es = Inr (w', mp') \<Longrightarrow>
     insertions w' = insertions w @ sentinelsFrom (nextId w) es"
proof (induction es arbitrary: w mp)
  case Nil
  then show ?case by simp
next
  case (Cons e es)
  obtain p m t where e: "e = (p, m, t)" by (cases e) auto
  from Cons.prems e obtain r where
    r: "insertAt p (fakeMarkerElement (nextId w) (markerName m) t) (root w) = Some r"
    by (auto simp: Let_def split: option.splits)
  with Cons.prems e have
    "insertFakeMarkersLoop
       (w\<lparr>root := r, nextId := Suc (nextId w),
          insertions := insertions w @ [(p, fakeMarkerElement (nextId w) (markerName m) t)]\<rparr>)
       (pushTo m (fakeMarkerElement (nextId w) (markerName m) t) mp) es = Inr (w', mp')"
    by (simp add: Let_def)
  from Cons.IH[OF this] e show ?case by simp
qed


lemma sentinelsFrom_origin:
  "(p, x) \<in> set (sentinelsFrom k es) \<Longrightarrow>
     \<exists>m t i. (p, m, t) \<in> set es \<and> x = fakeMarkerElement i (markerName m) t"
proof (induction es arbitrary: k)
  case Nil
  then show ?case by simp
next
  case (Cons e es)
  obtain p' m' t' where e: "e = (p', m', t')" by (cases e) auto
  from Cons.prems e consider
    "p = p'" "x = fakeMarkerElement k (markerName m') t'" | "(p, x) \<in> set (sentinelsFrom (Suc k) es)"
    by auto
  then show ?case
  proof cases
    case 1
    with e have "(p, m', t') \<in> set (e # es) \<and> x = fakeMarkerElement k (markerName m') t'" by simp
    then show ?thesis by blast
  next
    case 2
    from Cons.IH[OF this] obtain m t i where "(p, m, t) \<in> set es" "x = fakeMarkerElement i (markerName m) t"
      by blast
    then have "(p, m, t) \<in> set (e # es) \<and> x = fakeMarkerElement i (markerName m) t" by simp
    then show ?thesis by blast
  qed
qed

lemma markerBoundaries_mem:
  "(p, m, t) \<in> set (markerBoundaries ms) \<longleftrightarrow>
     m \<in> set ms \<and> ((t = ''start'' \<and> p = rangeStart (markerRange m)) \<or>
                     (t = ''end'' \<and> p = rangeEnd (markerRange m)))"
  by (auto simp: markerBoundaries_def)











lemma convertMarkersLoop_insertions:
  "convertMarkersLoop w es = Inr w' \<Longrightarrow> (p, x) \<in> set (insertions w') \<Longrightarrow>
     (p, x) \<in> set (insertions w) \<or> (\<exists>i name. (p, name) \<in> set es \<and> x = tableFakeMarker i name)"
proof (induction es arbitrary: w)
  case Nil
  then show ?case by simp
next
  case (Cons e es)
  obtain q name where e: "e = (q, name)" by (cases e) auto
  from Cons.prems(1) e obtain r where
    r: "insertAt q (tableFakeMarker (nextId w) name) (root w) = Some r"
    by (auto simp: Let_def split: option.splits)
  let ?w1 = "w\<lparr>root := r, nextId := Suc (nextId w),
          insertions := insertions w @ [(q, tableFakeMarker (nextId w) name)]\<rparr>"
  from Cons.prems(1) e r have "convertMarkersLoop ?w1 es = Inr w'" by (simp add: Let_def)
  from Cons.IH[OF this Cons.prems(2)] consider
    "(p, x) \<in> set (insertions w)" | "p = q" "x = tableFakeMarker (nextId w) name"
    | "\<exists>i name. (p, name) \<in> set es \<and> x = tableFakeMarker i name"
    by auto
  then show ?case
  proof cases
    case 1
    then show ?thesis by simp
  next
    case 2
    with e have "(p, name) \<in> set (e # es) \<and> x = tableFakeMarker (nextId w) name" by simp
    then show ?thesis by blast
  next
    case 3
    then obtain i n where "(p, n) \<in> set es" "x = tableFakeMarker i n" by blast
    then have "(p, n) \<in> set (e # es) \<and> x = tableFakeMarker i n" by simp
    then show ?thesis by blast
  qed
qed

text \<open>
  C4, as amended. Every sentinel the copy/cut encode step inserts carries the name of its marker
  and the kind of the boundary it stands at (\<^verbatim>\<open>data-type\<close> is \<^verbatim>\<open>start\<close> at the marker's start,
  \<^verbatim>\<open>end\<close> at its end); every sentinel the table-paste encode step inserts carries the name of
  its marker and no kind.
\<close>

theorem sentinel_boundary_kind:
  "(insertFakeMarkersElements w ms = Inr (w', mapped) \<and>
      (p, x) \<in> set (insertions w') \<and> (p, x) \<notin> set (insertions w) \<longrightarrow>
        (\<exists>m \<in> set ms. getAttribute x ''data-name'' = Some (markerName m) \<and>
           ((getAttribute x ''data-type'' = Some ''start'' \<and> p = rangeStart (markerRange m)) \<or>
            (getAttribute x ''data-type'' = Some ''end'' \<and> p = rangeEnd (markerRange m))))) \<and>
   (convertMarkersToElements markers v = Inr v' \<and>
      (q, y) \<in> set (insertions v') \<and> (q, y) \<notin> set (insertions v) \<longrightarrow>
        getAttribute y ''data-type'' = None \<and>
        (\<exists>name \<in> fst ` set markers. getAttribute y ''data-name'' = Some name))"
proof (intro conjI impI)
  assume a: "insertFakeMarkersElements w ms = Inr (w', mapped) \<and>
      (p, x) \<in> set (insertions w') \<and> (p, x) \<notin> set (insertions w)"
  then have "insertFakeMarkersLoop w [] (sortBackwards (markerBoundaries ms)) = Inr (w', mapped)"
    by (simp add: insertFakeMarkersElements_def)
  then have "insertions w' = insertions w @ sentinelsFrom (nextId w) (sortBackwards (markerBoundaries ms))"
    by (rule insertFakeMarkersLoop_insertions)
  with a have "(p, x) \<in> set (sentinelsFrom (nextId w) (sortBackwards (markerBoundaries ms)))" by auto
  from sentinelsFrom_origin[OF this] obtain m t i where
    mt: "(p, m, t) \<in> set (markerBoundaries ms)" "x = fakeMarkerElement i (markerName m) t"
    by (auto simp: set_sortBackwards)
  from mt(1) have m: "m \<in> set ms"
    and t: "(t = ''start'' \<and> p = rangeStart (markerRange m)) \<or> (t = ''end'' \<and> p = rangeEnd (markerRange m))"
    by (simp_all add: markerBoundaries_mem)
  from mt(2) have "getAttribute x ''data-name'' = Some (markerName m)"
    and "getAttribute x ''data-type'' = Some t"
    by (simp_all add: fakeMarkerElement_def)
  with m t show "\<exists>m \<in> set ms. getAttribute x ''data-name'' = Some (markerName m) \<and>
           ((getAttribute x ''data-type'' = Some ''start'' \<and> p = rangeStart (markerRange m)) \<or>
            (getAttribute x ''data-type'' = Some ''end'' \<and> p = rangeEnd (markerRange m)))"
    by blast
next
  assume a: "convertMarkersToElements markers v = Inr v' \<and>
      (q, y) \<in> set (insertions v') \<and> (q, y) \<notin> set (insertions v)"
  let ?es = "sortBackwards (concat (map (\<lambda>(name, r). [(rangeStart r, name), (rangeEnd r, name)]) markers))"
  from a have "convertMarkersLoop v ?es = Inr v'" by (simp add: convertMarkersToElements_def)
  from convertMarkersLoop_insertions[OF this, of q y] a obtain i name where
    n: "(q, name) \<in> set ?es" "y = tableFakeMarker i name" by blast
  from n(1) have "name \<in> fst ` set markers" by (force simp: set_sortBackwards)
  moreover from n(2) have "getAttribute y ''data-type'' = None" "getAttribute y ''data-name'' = Some name"
    by (simp_all add: tableFakeMarker_def)
  ultimately show "getAttribute y ''data-type'' = None" 
    and "\<exists>name \<in> fst ` set markers. getAttribute y ''data-name'' = Some name"
    by auto
qed

lemma table_encode_example:
  "convertMarkersToElements [(''comment:a'', Range [0, 1] [0, 3])]
     \<lparr>root = paragraphDocument, nextId = 100, insertions = []\<rparr>
   = Inr \<lparr>root = [Element 1 ''paragraph'' []
             [Text ''a'', tableFakeMarker 101 ''comment:a'', Text ''bc'',
              tableFakeMarker 100 ''comment:a'', Text ''def'']],
           nextId = 102,
           insertions = [([0, 3], tableFakeMarker 100 ''comment:a''),
                         ([0, 1], tableFakeMarker 101 ''comment:a'')]\<rparr>"
  by (simp add: convertMarkersToElements_def sortBackwards_def paragraphDocument_def
      tableFakeMarker_def Let_def)

text \<open>
  C4, as stated, fails on the table-paste path: \<^verbatim>\<open>_convertMarkersToElements\<close> creates its
  sentinels with \<^verbatim>\<open>data-name\<close> only.
\<close>

theorem table_sentinel_without_kind_counterexample:
  "convertMarkersToElements [(''comment:a'', Range [0, 1] [0, 3])]
     \<lparr>root = paragraphDocument, nextId = 100, insertions = []\<rparr>
   = Inr \<lparr>root = [Element 1 ''paragraph'' []
             [Text ''a'', tableFakeMarker 101 ''comment:a'', Text ''bc'',
              tableFakeMarker 100 ''comment:a'', Text ''def'']],
           nextId = 102,
           insertions = [([0, 3], tableFakeMarker 100 ''comment:a''),
                         ([0, 1], tableFakeMarker 101 ''comment:a'')]\<rparr> \<and>
   getAttribute (tableFakeMarker 100 ''comment:a'') ''data-type'' = None \<and>
   getAttribute (tableFakeMarker 101 ''comment:a'') ''data-type'' = None"
  by (simp add: convertMarkersToElements_def sortBackwards_def paragraphDocument_def
      tableFakeMarker_def Let_def)

theorem sentinel_boundary_kind_witness:
  "(\<exists>m \<in> set [Marker ''comment:a'' (Range [0, 1] [0, 3])].
      getAttribute (fakeMarkerElement 101 ''comment:a'' ''start'') ''data-name'' = Some (markerName m) \<and>
      getAttribute (fakeMarkerElement 101 ''comment:a'' ''start'') ''data-type'' = Some ''start'' \<and>
      [0, 1] = rangeStart (markerRange m)) \<and>
   getAttribute (tableFakeMarker 100 ''comment:a'') ''data-type'' = None"
proof -
  have copy: "insertFakeMarkersElements \<lparr>root = paragraphDocument, nextId = 100, insertions = []\<rparr>
       [Marker ''comment:a'' (Range [0, 1] [0, 3])]
     = Inr (\<lparr>root = [Element 1 ''paragraph'' []
             [Text ''a'', fakeMarkerElement 101 ''comment:a'' ''start'', Text ''bc'',
              fakeMarkerElement 100 ''comment:a'' ''end'', Text ''def'']],
           nextId = 102,
           insertions = [([0, 3], fakeMarkerElement 100 ''comment:a'' ''end''),
                         ([0, 1], fakeMarkerElement 101 ''comment:a'' ''start'')]\<rparr>,
          [(Marker ''comment:a'' (Range [0, 1] [0, 3]),
            [fakeMarkerElement 100 ''comment:a'' ''end'', fakeMarkerElement 101 ''comment:a'' ''start''])])"
    by (simp add: insertFakeMarkersElements_def markerBoundaries_def sortBackwards_def
        paragraphDocument_def fakeMarkerElement_def Let_def)
  from sentinel_boundary_kind [where w = "\<lparr>root = paragraphDocument, nextId = 100, insertions = []\<rparr>"
      and ms = "[Marker ''comment:a'' (Range [0, 1] [0, 3])]"
      and p = "[0, 1]" and x = "fakeMarkerElement 101 ''comment:a'' ''start''"
      and markers = "[(''comment:a'', Range [0, 1] [0, 3])]"
      and v = "\<lparr>root = paragraphDocument, nextId = 100, insertions = []\<rparr>"
      and q = "[0, 3]" and y = "tableFakeMarker 100 ''comment:a''", unfolded copy table_encode_example]
  show ?thesis by (simp add: fakeMarkerElement_def tableFakeMarker_def)
qed

section \<open>Properties of the decode step\<close>

lemma positionBefore_removeNode_same: "positionBefore i (removeNode i ns) off = None"
  by (induction i ns arbitrary: off rule: removeNode.induct) auto

lemma positionBefore_removeNode_None:
  "positionBefore i ns off = None \<Longrightarrow> positionBefore i (removeNode j ns) off' = None"
proof (induction j ns arbitrary: off off' rule: removeNode.induct)
  case (1 j)
  then show ?case by simp
next
  case (2 j s ns)
  then show ?case by simp
next
  case (3 j k n as cs ns)
  from "3.prems" have k: "k \<noteq> i" and cs: "positionBefore i cs 0 = None"
    and ns: "positionBefore i ns (off + 1) = None"
    by (auto split: if_splits option.splits)
  show ?case
  proof (cases "k = j")
    case True
    with "3.IH"(1)[OF True ns] show ?thesis by simp
  next
    case False
    from "3.IH"(2)[OF False cs] "3.IH"(3)[OF False ns] k False show ?thesis by simp
  qed
qed

lemma positionBefore_fold_removeNode_None:
  "positionBefore i ns 0 = None \<Longrightarrow> positionBefore i (fold removeNode js ns) 0 = None"
  by (induction js arbitrary: ns) (simp_all add: positionBefore_removeNode_None)

lemma positionBefore_items:
  "x \<in> set (items ns) \<Longrightarrow> isElement x \<Longrightarrow> positionBefore (ident x) ns off \<noteq> None"
proof (induction ns arbitrary: off rule: items.induct)
  case 1
  then show ?case by simp
next
  case (2 s ns)
  then show ?case by auto
next
  case (3 i n as cs ns)
  show ?case
  proof (cases "ident x = i")
    case True
    then show ?thesis by simp
  next
    case False
    with "3.prems" have "x \<in> set (items cs) \<or> x \<in> set (items ns)" by auto
    then show ?thesis
    proof
      assume "x \<in> set (items cs)"
      from "3.IH"(1)[OF this "3.prems"(2), of 0] False show ?thesis by auto
    next
      assume x: "x \<in> set (items ns)"
      from "3.IH"(2)[OF x "3.prems"(2), of "off + 1"] False show ?thesis
        by (auto split: option.splits)
    qed
  qed
qed

lemma map_of_setEntry: "map_of (setEntry k v m) = (map_of m)(k \<mapsto> v)"
  by (induction m) auto

lemma removeFakeMarker_lone_end:
  assumes "removeFakeMarker frag acc (name, [s]) = Inr (frag', acc')"
    and "getAttribute s ''data-type'' = Some ''end''"
  shows "\<exists>p. positionBefore (ident s) frag 0 = Some p \<and>
     frag' = removeNode (ident s) frag \<and> acc' = setEntry name (Range [0] p) acc"
  using assms by (auto simp: removeFakeMarker_def split: option.splits)

lemma removeFakeMarker_effect:
  assumes "removeFakeMarker frag acc (name, els) = Inr (frag', acc')"
  shows "(\<exists>js. frag' = fold removeNode js frag) \<and> (\<forall>k. k \<noteq> name \<longrightarrow> map_of acc' k = map_of acc k)"
proof -
  have shape: "(frag' = frag \<and> acc' = acc) \<or>
      (\<exists>a v. frag' = removeNode a frag \<and> acc' = setEntry name v acc) \<or>
      (\<exists>a b v. frag' = removeNode b (removeNode a frag) \<and> acc' = setEntry name v acc)"
  proof (cases els)
    case Nil
    with assms show ?thesis by (simp add: removeFakeMarker_def)
  next
    case (Cons s r)
    show ?thesis
    proof (cases r)
      case Nil
      with assms Cons show ?thesis
        by (auto simp: removeFakeMarker_def Let_def split: option.splits if_splits)
    next
      case (Cons e r')
      with assms \<open>els = s # r\<close> show ?thesis
        by (auto simp: removeFakeMarker_def Let_def split: option.splits)
    qed
  qed
  then consider "frag' = frag" "acc' = acc"
    | a v where "frag' = removeNode a frag" "acc' = setEntry name v acc"
    | a b v where "frag' = removeNode b (removeNode a frag)" "acc' = setEntry name v acc"
    by blast
  then show ?thesis
  proof cases
    case 1
    then have "frag' = fold removeNode [] frag" by simp
    with 1 show ?thesis by blast
  next
    case 2
    then have "frag' = fold removeNode [a] frag" by simp
    then have "\<exists>js. frag' = fold removeNode js frag" by blast
    with 2(2) show ?thesis by (simp add: map_of_setEntry)
  next
    case 3
    then have "frag' = fold removeNode [a, b] frag" by simp
    then have "\<exists>js. frag' = fold removeNode js frag" by blast
    with 3(2) show ?thesis by (simp add: map_of_setEntry)
  qed
qed

lemma removeFakeMarkersFromFragment_effect:
  "removeFakeMarkersFromFragment frag entries acc = Inr (frag', acc') \<Longrightarrow>
     (\<exists>js. frag' = fold removeNode js frag) \<and>
     (\<forall>k. k \<notin> fst ` set entries \<longrightarrow> map_of acc' k = map_of acc k)"
proof (induction entries arbitrary: frag acc)
  case Nil
  then have "frag' = fold removeNode [] frag" "acc' = acc" by simp_all
  then show ?case by blast
next
  case (Cons e entries)
  obtain name els where e: "e = (name, els)" by (cases e) auto
  from Cons.prems obtain f1 a1 where
    step: "removeFakeMarker frag acc e = Inr (f1, a1)"
    and rest: "removeFakeMarkersFromFragment f1 entries a1 = Inr (frag', acc')"
    by (auto split: sum.splits)
  from removeFakeMarker_effect[OF step[unfolded e]] obtain js where
    js: "f1 = fold removeNode js frag" and k1: "\<forall>k. k \<noteq> name \<longrightarrow> map_of a1 k = map_of acc k"
    by blast
  from Cons.IH[OF rest] obtain js' where
    js': "frag' = fold removeNode js' f1"
    and k2: "\<forall>k. k \<notin> fst ` set entries \<longrightarrow> map_of acc' k = map_of a1 k"
    by blast
  from js js' have "frag' = fold removeNode (js @ js') frag" by simp
  moreover from k1 k2 e have "\<forall>k. k \<notin> fst ` set (e # entries) \<longrightarrow> map_of acc' k = map_of acc k"
    by auto
  ultimately show ?case by blast
qed

lemma removeFakeMarkersFromFragment_append:
  "removeFakeMarkersFromFragment frag (pre @ e # post) acc = Inr r \<Longrightarrow>
     \<exists>f1 a1 f2 a2. removeFakeMarkersFromFragment frag pre acc = Inr (f1, a1) \<and>
        removeFakeMarker f1 a1 e = Inr (f2, a2) \<and>
        removeFakeMarkersFromFragment f2 post a2 = Inr r"
proof (induction pre arbitrary: frag acc)
  case Nil
  then show ?case by (auto split: sum.splits)
next
  case (Cons x pre)
  from Cons.prems obtain f a where
    x: "removeFakeMarker frag acc x = Inr (f, a)"
    and rest: "removeFakeMarkersFromFragment f (pre @ e # post) a = Inr r"
    by (auto split: sum.splits)
  from Cons.IH[OF rest] x show ?case by auto
qed

text \<open>
  C5. When the decode step succeeds and a marker name has exactly one sentinel, of kind
  \<^verbatim>\<open>end\<close>, the range recorded for the name runs from path \<open>[0]\<close> of the root to the position
  just before the sentinel (taken in the fragment as the earlier names left it), and the
  sentinel is gone from the fragment.
\<close>

theorem lone_end_sentinel_range:
  assumes "removeFakeMarkersFromFragment frag (pre @ (name, [s]) # post) acc = Inr (frag', acc')"
    and "name \<notin> fst ` set post"
    and "getAttribute s ''data-type'' = Some ''end''"
  shows "\<exists>frag1 acc1 p.
     removeFakeMarkersFromFragment frag pre acc = Inr (frag1, acc1) \<and>
     positionBefore (ident s) frag1 0 = Some p \<and>
     map_of acc' name = Some (Range [0] p) \<and>
     positionBefore (ident s) frag' 0 = None \<and> s \<notin> set (items frag')"
proof -
  from removeFakeMarkersFromFragment_append[OF assms(1)] obtain f1 a1 f2 a2 where
    pre: "removeFakeMarkersFromFragment frag pre acc = Inr (f1, a1)"
    and step: "removeFakeMarker f1 a1 (name, [s]) = Inr (f2, a2)"
    and post: "removeFakeMarkersFromFragment f2 post a2 = Inr (frag', acc')"
    by blast
  from removeFakeMarker_lone_end[OF step assms(3)] obtain p where
    p: "positionBefore (ident s) f1 0 = Some p"
    and f2: "f2 = removeNode (ident s) f1" and a2: "a2 = setEntry name (Range [0] p) a1"
    by blast
  from removeFakeMarkersFromFragment_effect[OF post] obtain js where
    js: "frag' = fold removeNode js f2"
    and keep: "\<forall>k. k \<notin> fst ` set post \<longrightarrow> map_of acc' k = map_of a2 k"
    by blast
  from keep assms(2) a2 have range: "map_of acc' name = Some (Range [0] p)"
    by (simp add: map_of_setEntry)
  have gone: "positionBefore (ident s) frag' 0 = None"
    unfolding js f2 by (intro positionBefore_fold_removeNode_None positionBefore_removeNode_same)
  have el: "isElement s" using assms(3) by (cases s) auto
  from gone el have "s \<notin> set (items frag')" using positionBefore_items by blast
  with pre p range gone show ?thesis by blast
qed

lemma lone_end_example:
  "removeFakeMarkersFromFragment loneEndFragment
     ([] @ (''comment:a'', [fakeMarkerElement 11 ''comment:a'' ''end'']) # []) []
   = Inr ([Element 2 ''paragraph'' [] [Text ''a'', Text ''b'']], [(''comment:a'', Range [0] [0, 1])])"
  by (simp add: loneEndFragment_def removeFakeMarker_def fakeMarkerElement_def)

theorem lone_end_sentinel_range_witness:
  "\<exists>frag1 acc1 p.
     removeFakeMarkersFromFragment loneEndFragment [] [] = Inr (frag1, acc1) \<and>
     positionBefore (ident (fakeMarkerElement 11 ''comment:a'' ''end'')) frag1 0 = Some p \<and>
     map_of [(''comment:a'', Range [0] [0, 1])] ''comment:a'' = Some (Range [0] p) \<and>
     positionBefore (ident (fakeMarkerElement 11 ''comment:a'' ''end''))
       [Element 2 ''paragraph'' [] [Text ''a'', Text ''b'']] 0 = None \<and>
     fakeMarkerElement 11 ''comment:a'' ''end''
       \<notin> set (items [Element 2 ''paragraph'' [] [Text ''a'', Text ''b'']])"
  by (rule lone_end_sentinel_range [OF lone_end_example]) (simp_all add: fakeMarkerElement_def)

lemma inside_encode_example:
  "beforeCopySelectionMarkersFragment \<lparr>root = paragraphDocument, nextId = 100, insertions = []\<rparr>
     [Marker ''comment:a'' (Range [0, 0] [0, 6])] [Range [0, 2] [0, 4]]
   = Inr (\<lparr>root = insideSource, nextId = 102,
            insertions = [([0, 6], fakeMarkerElement 100 ''comment:a'' ''end''),
                          ([0, 0], fakeMarkerElement 101 ''comment:a'' ''start'')]\<rparr>,
          insideInserted)"
  by (simp add: beforeCopySelectionMarkersFragment_def insertFakeMarkersElements_def
      getCopyableMarkersFromSelection_def getMarkersIntersectingRange_def isIntersecting_def
      isAfter_def startsWith_def markerBoundaries_def sortBackwards_def paragraphDocument_def
      fakeMarkerElement_def Let_def insideSource_def insideInserted_def)

text \<open>
  C6. A selection inside a marker: both sentinels stay in the source, the fragment holds none.
  \<^verbatim>\<open>afterCopySelectionMarkersFragment\<close> sets no marker on the fragment, where the claim asks
  for one over the whole fragment; \<^verbatim>\<open>collectAndRemoveFakeMarkers\<close> sets it.
\<close>

theorem afterCopy_inside_marker_sets_nothing:
  "afterCopySelectionMarkersFragment
     \<lparr>source = insideSource, fragment = [Text ''cd''], fragmentMarkers = []\<rparr> insideInserted
   = Inr \<lparr>source = [Element 1 ''paragraph'' [] [Text ''abcdef'']],
           fragment = [Text ''cd''], fragmentMarkers = []\<rparr>"
  by (simp add: afterCopySelectionMarkersFragment_def getAllFakeMarkersFromElement_def
      objectEntries_def insideSource_def insideInserted_def fakeMarkerElement_def)

lemma collectAndRemove_inside_marker_example:
  "collectAndRemoveFakeMarkers
     \<lparr>source = insideSource, fragment = [Text ''cd''], fragmentMarkers = []\<rparr> insideInserted
   = Inr \<lparr>source = [Element 1 ''paragraph'' [] [Text ''abcdef'']],
           fragment = [Text ''cd''], fragmentMarkers = [(''comment:a'', Range [0] [2])]\<rparr>"
  by (simp add: collectAndRemoveFakeMarkers_def getAllFakeMarkersFromElement_def
      objectEntries_def insideSource_def insideInserted_def fakeMarkerElement_def createRangeIn_def
      maxOffset_def)

lemma removeElements_fragmentMarkers:
  "removeElements c es = Inr c' \<Longrightarrow> fragmentMarkers c' = fragmentMarkers c"
proof (induction es arbitrary: c)
  case Nil
  then show ?case by simp
next
  case (Cons e es)
  show ?case
  proof (cases "positionBefore (ident e) (source c) 0 \<noteq> None")
    case True
    with Cons.prems have "removeElements (c\<lparr>source := removeNode (ident e) (source c)\<rparr>) es = Inr c'"
      by simp
    from Cons.IH[OF this] show ?thesis by simp
  next
    case False
    with Cons.prems have "positionBefore (ident e) (fragment c) 0 \<noteq> None"
      by (auto split: if_splits)
    with Cons.prems False
    have "removeElements (c\<lparr>fragment := removeNode (ident e) (fragment c)\<rparr>) es = Inr c'"
      by simp
    from Cons.IH[OF this] show ?thesis by simp
  qed
qed

lemma setInsideMarkers_keeps:
  "map_of ms n = Some whole \<Longrightarrow> map_of (setInsideMarkers ranges whole ins ms) n = Some whole"
proof (induction ins arbitrary: ms)
  case Nil
  then show ?case by simp
next
  case (Cons e ins)
  obtain m els where e: "e = (m, els)" by (cases e) auto
  from Cons.prems have "map_of (setEntry (markerName m) whole ms) n = Some whole"
    by (simp add: map_of_setEntry)
  with Cons e show ?case by simp
qed

lemma setInsideMarkers_sets:
  "(m, els) \<in> set ins \<Longrightarrow> map_of ranges (markerName m) = None \<Longrightarrow>
     map_of (setInsideMarkers ranges whole ins ms) (markerName m) = Some whole"
proof (induction ins arbitrary: ms)
  case Nil
  then show ?case by simp
next
  case (Cons e ins)
  obtain m' els' where e: "e = (m', els')" by (cases e) auto
  show ?case
  proof (cases "markerName m' = markerName m")
    case True
    have "map_of (setEntry (markerName m') whole ms) (markerName m) = Some whole"
      using True by (simp add: map_of_setEntry)
    from setInsideMarkers_keeps[OF this] Cons.prems(2) True e show ?thesis by simp
  next
    case False
    with Cons.prems(1) e have "(m, els) \<in> set ins" by auto
    from Cons.IH[OF this Cons.prems(2)] e show ?thesis by simp
  qed
qed

lemma objectEntries_set: "set (objectEntries es) = set es"
  by (auto simp: objectEntries_def)

lemma collectAndRemove_inside_marker:
  assumes "collectAndRemoveFakeMarkers c ins = Inr c'"
    and "(m, els) \<in> set ins"
    and "markerName m \<notin> fst ` set (getAllFakeMarkersFromElement (fragment c))"
  shows "\<exists>frag1 ranges.
     removeFakeMarkersFromFragment (fragment c)
             (objectEntries (getAllFakeMarkersFromElement (fragment c))) []
       = Inr (frag1, ranges) \<and>
     map_of (fragmentMarkers c') (markerName m) = Some (createRangeIn frag1)"
proof -
  from assms(1) obtain frag1 ranges where
    dec: "removeFakeMarkersFromFragment (fragment c)
             (objectEntries (getAllFakeMarkersFromElement (fragment c))) []
       = Inr (frag1, ranges)"
    and rm: "removeElements
       (c\<lparr>fragment := frag1,
          fragmentMarkers := setInsideMarkers ranges (createRangeIn frag1) ins
             (setAll (objectEntries ranges) (fragmentMarkers c))\<rparr>) (concat (map snd ins)) = Inr c'"
    by (auto simp: collectAndRemoveFakeMarkers_def split: sum.splits)
  from assms(3) have "markerName m \<notin> fst ` set (objectEntries (getAllFakeMarkersFromElement (fragment c)))"
    by (simp add: objectEntries_set)
  with removeFakeMarkersFromFragment_effect[OF dec]
  have "map_of ranges (markerName m) = None" by simp
  from setInsideMarkers_sets[OF assms(2) this]
  have "map_of (setInsideMarkers ranges (createRangeIn frag1) ins
       (setAll (objectEntries ranges) (fragmentMarkers c)))
     (markerName m) = Some (createRangeIn frag1)" .
  with removeElements_fragmentMarkers[OF rm] dec show ?thesis by simp
qed

lemma two_ranges_encode_example:
  "beforeCopySelectionMarkersFragment \<lparr>root = twoCellTable, nextId = 100, insertions = []\<rparr>
     [Marker ''comment:a'' (Range [0, 0, 0, 0, 1] [0, 0, 1, 0, 1])]
     [Range [0, 0, 0] [0, 0, 1], Range [0, 0, 1] [0, 0, 2]]
   = Inr (\<lparr>root = twoCellEncoded, nextId = 104,
            insertions = [([0, 0, 1, 0, 1], fakeMarkerElement 100 ''comment:a'' ''end''),
                          ([0, 0, 1, 0, 1], fakeMarkerElement 101 ''comment:a'' ''end''),
                          ([0, 0, 0, 0, 1], fakeMarkerElement 102 ''comment:a'' ''start''),
                          ([0, 0, 0, 0, 1], fakeMarkerElement 103 ''comment:a'' ''start'')]\<rparr>,
          twoCellInserted)"
  by (simp add: beforeCopySelectionMarkersFragment_def insertFakeMarkersElements_def
      getCopyableMarkersFromSelection_def getMarkersIntersectingRange_def isIntersecting_def
      isAfter_def startsWith_def markerBoundaries_def sortBackwards_def twoCellTable_def
      fakeMarkerElement_def Let_def twoCellEncoded_def twoCellInserted_def)

text \<open>
  C7. A marker that starts in one selected table cell and ends in another intersects both
  selection ranges, so the encode step inserts each of its sentinels twice. The decode step of
  copy and cut consumes the first two sentinels of the name and leaves the other two in the
  fragment.
\<close>

theorem afterCopy_leaves_sentinels:
  "afterCopySelectionMarkersFragment
     \<lparr>source = twoCellEncoded, fragment = twoCellFragment, fragmentMarkers = []\<rparr> twoCellInserted
   = Inr \<lparr>source =
            [Element 1 ''table'' []
               [Element 2 ''tableRow'' []
                  [Element 3 ''tableCell'' [] [Element 4 ''paragraph'' [] [Text ''a'', Text ''b'']],
                   Element 5 ''tableCell'' [] [Element 6 ''paragraph'' [] [Text ''c'', Text ''d'']]]]],
           fragment = twoCellLeftover,
           fragmentMarkers = [(''comment:a'', Range [0, 0, 0, 0, 1] [0, 0, 0, 0, 1])]\<rparr> \<and>
   fakeMarkerElement 200 ''comment:a'' ''end'' \<in> set (items twoCellLeftover) \<and>
   fakeMarkerElement 201 ''comment:a'' ''end'' \<in> set (items twoCellLeftover)"
  by (simp add: afterCopySelectionMarkersFragment_def getAllFakeMarkersFromElement_def
      objectEntries_def isArrayIndex_def isDigit_def removeFakeMarker_def twoCellEncoded_def twoCellFragment_def twoCellInserted_def
      twoCellLeftover_def fakeMarkerElement_def Let_def)

lemma collectAndRemove_leaves_sentinels:
  "collectAndRemoveFakeMarkers
     \<lparr>source = twoCellEncoded, fragment = twoCellFragment, fragmentMarkers = []\<rparr> twoCellInserted
   = Inr \<lparr>source =
            [Element 1 ''table'' []
               [Element 2 ''tableRow'' []
                  [Element 3 ''tableCell'' [] [Element 4 ''paragraph'' [] [Text ''a'', Text ''b'']],
                   Element 5 ''tableCell'' [] [Element 6 ''paragraph'' [] [Text ''c'', Text ''d'']]]]],
           fragment = twoCellLeftover,
           fragmentMarkers = [(''comment:a'', Range [0, 0, 0, 0, 1] [0, 0, 0, 0, 1])]\<rparr>"
  by (simp add: collectAndRemoveFakeMarkers_def getAllFakeMarkersFromElement_def
      objectEntries_def isArrayIndex_def isDigit_def removeFakeMarker_def twoCellEncoded_def twoCellFragment_def twoCellInserted_def
      twoCellLeftover_def fakeMarkerElement_def Let_def)

section \<open>Properties of the table-paste decode step\<close>







lemma positionBefore_shape:
  "positionBefore i ns off = Some p \<Longrightarrow>
     \<exists>k q x. p = (off + k) # q \<and> nodeAfter (k # q) ns = Some x \<and> ident x = i \<and> isElement x"
proof (induction i ns off arbitrary: p rule: positionBefore.induct)
  case (1 i off)
  then show ?case by simp
next
  case (2 i s ns off)
  from "2.prems" have "positionBefore i ns (off + length s) = Some p" by simp
  from "2.IH"[OF this] obtain k q x where
    "p = (off + length s + k) # q" "nodeAfter (k # q) ns = Some x" "ident x = i" "isElement x"
    by blast
  then have "p = (off + (length s + k)) # q \<and>
      nodeAfter ((length s + k) # q) (Text s # ns) = Some x \<and> ident x = i \<and> isElement x"
    by simp
  then show ?case by blast
next
  case (3 i j n as cs ns off)
  show ?case
  proof (cases "j = i")
    case True
    with "3.prems" have "p = (off + 0) # [] \<and>
        nodeAfter (0 # []) (Element j n as cs # ns) = Some (Element j n as cs) \<and>
        ident (Element j n as cs) = i \<and> isElement (Element j n as cs)" by simp
    then show ?thesis by blast
  next
    case False
    show ?thesis
    proof (cases "positionBefore i cs 0")
      case None
      with False "3.prems" have "positionBefore i ns (off + 1) = Some p" by simp
      from "3.IH"(2)[OF False None this] obtain k q x where
        "p = (off + 1 + k) # q" "nodeAfter (k # q) ns = Some x" "ident x = i" "isElement x"
        by blast
      then have "p = (off + (Suc k)) # q \<and>
          nodeAfter (Suc k # q) (Element j n as cs # ns) = Some x \<and> ident x = i \<and> isElement x"
        by simp
      then show ?thesis by blast
    next
      case (Some p')
      with False "3.prems" have p: "p = off # p'" by simp
      from "3.IH"(1)[OF False Some] obtain k q x where
        kq: "p' = (0 + k) # q" "nodeAfter (k # q) cs = Some x" "ident x = i" "isElement x"
        by blast
      with p have "p = (off + 0) # k # q \<and>
          nodeAfter (0 # k # q) (Element j n as cs # ns) = Some x \<and> ident x = i \<and> isElement x"
        by simp
      then show ?thesis by blast
    qed
  qed
qed

lemma positionOf_nodeAfter:
  assumes "positionBefore (ident x) t 0 \<noteq> None"
  shows "\<exists>y. nodeAfter (positionOf x t) t = Some y \<and> ident y = ident x \<and> isElement y"
proof -
  from assms obtain p where p: "positionBefore (ident x) t 0 = Some p" by auto
  from positionBefore_shape[OF p] p show ?thesis by (auto simp: positionOf_def)
qed

text \<open>
  The range of a pair whose sentinels are in the tree starts at the first sentinel and ends at
  the second.
\<close>

lemma paired_range_at_sentinels:
  assumes "positionBefore (ident a) t 0 \<noteq> None" and "positionBefore (ident b) t 0 \<noteq> None"
  shows "\<exists>n r rest. pairedMarkers uid c name k (a # b # els) t = (n, r) # rest \<and>
     (\<exists>y. nodeAfter (rangeStart r) t = Some y \<and> ident y = ident a) \<and>
     (\<exists>y. nodeAfter (rangeEnd r) t = Some y \<and> ident y = ident b)"
  using positionOf_nodeAfter[OF assms(1)] positionOf_nodeAfter[OF assms(2)] by auto























lemma rowCells_groups:
  "markersFakeElements rowCells =
     [(''comment:t:1'',
       [tableFakeMarker 20 ''comment:t:1'', tableFakeMarker 21 ''comment:t:1'',
        tableFakeMarker 22 ''comment:t:1'', tableFakeMarker 23 ''comment:t:1'',
        tableFakeMarker 24 ''comment:t:1''])]"
  by (simp add: markersFakeElements_def objectEntries_def isArrayIndex_def isDigit_def
      rowCells_def tableFakeMarker_def)


lemma row_decoded_markers:
  "decodedMarkers countingUid 0 (markersFakeElements rowCells) rowTable =
     [(''comment:t:1'', Range [0, 0, 0, 0, 0] [0, 0, 0, 0, 2]),
      (''comment:t:ex'', Range [0, 0, 1, 0, 0] [0, 0, 1, 0, 2])]"
  unfolding rowCells_groups
  by (simp add: rowTable_def rowCells_def tableFakeMarker_def positionOf_def
      chunkMarkerName_def slice0_def countingUid_def)


text \<open>
  A name without a colon: \<^verbatim>\<open>lastIndexOf\<close> answers \<open>-1\<close> and \<^verbatim>\<open>slice( 0, -1 )\<close> drops the last
  character of the name.
\<close>

lemma slice0_without_colon_example:
  "slice0 ''ab'' (lastIndexOf ''ab'' (CHR '':'')) = ''a''"
  by (simp add: slice0_def)

text \<open>A name that the model holds already: \<^verbatim>\<open>writer.addMarker\<close> throws.\<close>

lemma taken_name_example:
  "convertElementsToMarkers countingUid rowCells
     \<lparr>tree = rowTable, modelMarkers = [(''comment:t:1'', Range [0] [1])], uidCount = 0\<rparr>
   = Inl MarkerExists"
  unfolding convertElementsToMarkers_def rowCells_groups
  by (simp add: rowTable_def rowCells_def tableFakeMarker_def chunkMarkerName_def)

text \<open>Names that are array indices come first, in ascending order.\<close>

lemma objectEntries_example:
  "objectEntries [(''b'', 1 :: nat), (''10'', 2), (''a'', 3), (''9'', 4), (''07'', 5)]
     = [(''9'', 4), (''10'', 2), (''b'', 1), (''a'', 3), (''07'', 5)]"
  by (simp add: objectEntries_def isArrayIndex_def isDigit_def indexValue_def)

section \<open>Properties of the slot walk\<close>

lemma trim_plain:
  "rowspan c = 1 \<Longrightarrow> colspan c = 1 \<Longrightarrow> row \<le> limitRow \<Longrightarrow> column \<le> limitColumn \<Longrightarrow>
     trimTableCellIfNeeded c row column limitRow limitColumn = c"
  by (simp add: trimTableCellIfNeeded_def)

lemma lookup_single: "lookupPastedCell [[Some p]] i j (Suc 0) (Suc 0) = Inr (Some p)"
  by (simp add: lookupPastedCell_def)

lemma map_upt_shift: "map f [0..<Suc n] = f 0 # map (\<lambda>k. f (Suc k)) [0..<n]"
  by (induction n) simp_all

lemma replaceSlots_single:
  assumes "rowspan p = 1" and "colspan p = 1"
  shows "replaceSlots sel [[Some p]] 1 1 slots st = Inr st' \<Longrightarrow>
     \<forall>s \<in> set slots. slotRow s \<le> lastRow sel \<and> slotColumn s \<le> lastColumn sel \<Longrightarrow>
     cellsToSelect st' =
       cellsToSelect st @ map (\<lambda>k. cloneElement (nextCellId st + k) p) [0..<length slots]"
proof (induction slots arbitrary: st)
  case Nil
  then show ?case by simp
next
  case (Cons s slots)
  let ?pos = "if slotColumn s = firstColumn sel then Some (getPositionBefore s) else insertPosition st"
  let ?c = "cloneElement (nextCellId st) p"
  from Cons.prems(1) obtain t1 r where
    rep: "replaceTableSlotCell s (Some ?c) ?pos (tableOf st) = Inr (t1, r)"
    by (auto simp: lookup_single Let_def split: sum.splits)
  then have r: "r = Some ?c"
    by (auto simp: replaceTableSlotCell_def Let_def split: option.splits)
  from Cons.prems(2) have "slotRow s \<le> lastRow sel" "slotColumn s \<le> lastColumn sel" by simp_all
  with assms have trim: "trimTableCellIfNeeded ?c (slotRow s) (slotColumn s) (lastRow sel) (lastColumn sel) = ?c"
    by (intro trim_plain) (simp_all add: cloneElement_def)
  let ?st1 = "st\<lparr>tableOf := map (map (\<lambda>x. if cellId x = cellId ?c then ?c else x)) t1,
      nextCellId := Suc (nextCellId st), cellsToSelect := cellsToSelect st @ [?c],
      insertPosition := map_option (\<lambda>(r, i). (r, i + 1)) ?pos\<rparr>"
  from Cons.prems(1) rep r trim have rest: "replaceSlots sel [[Some p]] 1 1 slots ?st1 = Inr st'"
    by (simp add: lookup_single Let_def cong: if_cong)
  from Cons.prems(2) have "\<forall>s \<in> set slots. slotRow s \<le> lastRow sel \<and> slotColumn s \<le> lastColumn sel"
    by simp
  from Cons.IH[OF rest this] have
    "cellsToSelect st' = (cellsToSelect st @ [?c]) @
       map (\<lambda>k. cloneElement (Suc (nextCellId st) + k) p) [0..<length slots]" by simp
  then show ?case
    using map_upt_shift[of "\<lambda>k. cloneElement (nextCellId st + k) p" "length slots"] by simp
qed

lemma createLocationMap_single:
  "colspan p = 1 \<Longrightarrow> createLocationMap [[p]] (Suc 0) (Suc 0) = Inr [[Some p]]"
  by (simp add: createLocationMap_def tableWalker_def isAnchor_def setColumn_def)

lemma walkRow_plain:
  "\<forall>c \<in> set cells. colspan c = 1 \<Longrightarrow>
     walkRow r [] cells column cellIndex =
       map (\<lambda>k. \<lparr>slotCell = cells ! k, slotRow = r, slotColumn = column + k, cellAnchorRow = r,
                  cellAnchorColumn = column + k, slotCellIndex = cellIndex + k\<rparr>)
         [0..<length cells]"
proof (induction cells arbitrary: column cellIndex)
  case Nil
  then show ?case by simp
next
  case (Cons c cells)
  from Cons.prems have c: "colspan c = 1" and rest: "\<forall>c \<in> set cells. colspan c = 1" by simp_all
  have "walkRow r [] (c # cells) column cellIndex =
      \<lparr>slotCell = c, slotRow = r, slotColumn = column, cellAnchorRow = r,
       cellAnchorColumn = column, slotCellIndex = cellIndex\<rparr>
      # walkRow r [] cells (Suc column) (Suc cellIndex)"
    using c by (subst walkRow.simps) simp
  also have "walkRow r [] cells (Suc column) (Suc cellIndex) =
      map (\<lambda>k. \<lparr>slotCell = cells ! k, slotRow = r, slotColumn = Suc column + k, cellAnchorRow = r,
                  cellAnchorColumn = Suc column + k, slotCellIndex = Suc cellIndex + k\<rparr>)
         [0..<length cells]"
    by (rule Cons.IH[OF rest])
  finally show ?case
    using map_upt_shift[of "\<lambda>k. \<lparr>slotCell = (c # cells) ! k, slotRow = r, slotColumn = column + k,
        cellAnchorRow = r, cellAnchorColumn = column + k, slotCellIndex = cellIndex + k\<rparr>" "length cells"]
    by simp
qed

lemma spansBelow_plain:
  "\<forall>s \<in> set slots. rowspan (slotCell s) = 1 \<Longrightarrow> spansBelow slots = []"
  unfolding spansBelow_def concat_eq_Nil_conv by auto

lemma walkRows_plain:
  "\<forall>row \<in> set t. \<forall>c \<in> set row. rowspan c = 1 \<and> colspan c = 1 \<Longrightarrow>
     walkRows r [] t =
       concat (map (\<lambda>i. map (\<lambda>k. \<lparr>slotCell = t ! i ! k, slotRow = r + i, slotColumn = k,
                                     cellAnchorRow = r + i, cellAnchorColumn = k, slotCellIndex = k\<rparr>)
                            [0..<length (t ! i)])
                 [0..<length t])"
proof (induction t arbitrary: r)
  case Nil
  then show ?case by simp
next
  case (Cons row t)
  let ?slots = "map (\<lambda>k. \<lparr>slotCell = row ! k, slotRow = r, slotColumn = k, cellAnchorRow = r,
                  cellAnchorColumn = k, slotCellIndex = k\<rparr>) [0..<length row]"
  from Cons.prems have row: "\<forall>c \<in> set row. colspan c = 1" by simp
  have w: "walkRow r [] row 0 0 = ?slots" using walkRow_plain[OF row, of r 0 0] by simp
  have "\<forall>s \<in> set ?slots. rowspan (slotCell s) = 1" using Cons.prems by auto
  then have sb: "spansBelow ?slots = []" by (rule spansBelow_plain)
  from Cons.prems have "\<forall>row \<in> set t. \<forall>c \<in> set row. rowspan c = 1 \<and> colspan c = 1" by simp
  note ih = Cons.IH[OF this, of "Suc r"]
  have "walkRows r [] (row # t) = ?slots @ walkRows (Suc r) [] t"
    by (simp add: w sb Let_def del: walkRow.simps)
  also have "\<dots> = concat (map (\<lambda>i. map (\<lambda>k. \<lparr>slotCell = (row # t) ! i ! k, slotRow = r + i,
        slotColumn = k, cellAnchorRow = r + i, cellAnchorColumn = k, slotCellIndex = k\<rparr>)
        [0..<length ((row # t) ! i)]) [0..<Suc (length t)])"
    unfolding ih
    using map_upt_shift[of "\<lambda>i. map (\<lambda>k. \<lparr>slotCell = (row # t) ! i ! k, slotRow = r + i,
        slotColumn = k, cellAnchorRow = r + i, cellAnchorColumn = k, slotCellIndex = k\<rparr>)
        [0..<length ((row # t) ! i)]" "length t"]
    by (simp del: upt_Suc)
  finally show ?case by (simp del: upt_Suc)
qed

lemma filter_upt_range:
  "filter (\<lambda>k. a \<le> k \<and> k \<le> b) [0..<n] = [a..<min n (Suc b)]"
proof (induction n)
  case 0
  then show ?case by simp
next
  case (Suc n)
  then show ?case by (auto simp: min_def not_less_eq_eq)
qed

lemma plain_table_walk:
  assumes "\<forall>row \<in> set t. \<forall>c \<in> set row. rowspan c = 1 \<and> colspan c = 1"
    and "lastRow sel < length t"
    and "\<forall>row \<in> set t. lastColumn sel < length row"
  shows "tableWalker t (firstRow sel) (Some (lastRow sel)) (firstColumn sel) (Some (lastColumn sel)) True
     = concat (map (\<lambda>r. map (\<lambda>l. \<lparr>slotCell = t ! r ! l, slotRow = r, slotColumn = l,
                                     cellAnchorRow = r, cellAnchorColumn = l, slotCellIndex = l\<rparr>)
                            [firstColumn sel..<Suc (lastColumn sel)])
                 [firstRow sel..<Suc (lastRow sel)])"
proof -
  let ?slot = "\<lambda>i k. \<lparr>slotCell = t ! i ! k, slotRow = i, slotColumn = k,
      cellAnchorRow = i, cellAnchorColumn = k, slotCellIndex = k\<rparr>"
  let ?P = "\<lambda>s. firstRow sel \<le> slotRow s \<and> slotRow s \<le> lastRow sel \<and>
      firstColumn sel \<le> slotColumn s \<and> slotColumn s \<le> lastColumn sel"
  let ?C = "\<lambda>k. firstColumn sel \<le> k \<and> k \<le> lastColumn sel"
  have walk: "walkRows 0 [] t = concat (map (\<lambda>i. map (?slot i) [0..<length (t ! i)]) [0..<length t])"
    using walkRows_plain[OF assms(1), of 0] by simp
  have row: "filter ?P (map (?slot i) [0..<n])
      = (if firstRow sel \<le> i \<and> i \<le> lastRow sel then map (?slot i) (filter ?C [0..<n]) else [])"
    for i n
    by (induction n) auto
  have rows: "filter ?P (concat (map (\<lambda>i. map (?slot i) [0..<length (t ! i)]) is))
      = concat (map (\<lambda>i. map (?slot i) (filter ?C [0..<length (t ! i)]))
          (filter (\<lambda>i. firstRow sel \<le> i \<and> i \<le> lastRow sel) is))" for "is"
  proof (induction "is")
    case Nil
    then show ?case by simp
  next
    case (Cons i "is")
    then show ?case using row[of i "length (t ! i)"] by simp
  qed
  have cols: "filter ?C [0..<length (t ! i)] = [firstColumn sel..<Suc (lastColumn sel)]"
    if "i < length t" for i
  proof -
    from that assms(3) have "lastColumn sel < length (t ! i)" by simp
    then have "min (length (t ! i)) (Suc (lastColumn sel)) = Suc (lastColumn sel)" by simp
    then show ?thesis unfolding filter_upt_range by simp
  qed
  have frows: "filter (\<lambda>i. firstRow sel \<le> i \<and> i \<le> lastRow sel) [0..<length t]
      = [firstRow sel..<Suc (lastRow sel)]"
  proof -
    from assms(2) have "min (length t) (Suc (lastRow sel)) = Suc (lastRow sel)" by simp
    then show ?thesis unfolding filter_upt_range by simp
  qed
  have "tableWalker t (firstRow sel) (Some (lastRow sel)) (firstColumn sel) (Some (lastColumn sel)) True
      = concat (map (\<lambda>i. map (?slot i) (filter ?C [0..<length (t ! i)]))
          [firstRow sel..<Suc (lastRow sel)])"
    unfolding tableWalker_def walk using rows[of "[0..<length t]"] frows by simp
  also have "\<dots> = concat (map (\<lambda>i. map (?slot i) [firstColumn sel..<Suc (lastColumn sel)])
          [firstRow sel..<Suc (lastRow sel)])"
  proof -
    have "\<forall>i \<in> set [firstRow sel..<Suc (lastRow sel)]. i < length t" using assms(2) by auto
    then show ?thesis using cols by (intro arg_cong[of _ _ concat] map_cong) auto
  qed
  finally show ?thesis .
qed

lemma length_plain_walk:
  "length (concat (map (\<lambda>r. map (g r) [a..<b]) xs)) = length xs * (b - a)"
  by (induction xs) simp_all

text \<open>One slot of a table without spans: its cell is removed and a clone takes its place.\<close>

lemma ids_coordinates:
  "distinct (map f (concat T)) \<Longrightarrow> j < length T \<Longrightarrow> l < length (T ! j) \<Longrightarrow>
     j' < length T \<Longrightarrow> l' < length (T ! j') \<Longrightarrow> f (T ! j ! l) = f (T ! j' ! l') \<Longrightarrow>
     j = j' \<and> l = l'"
proof (induction T arbitrary: j j')
  case Nil
  then show ?case by simp
next
  case (Cons row T)
  from Cons.prems(1) have row: "distinct (map f row)" and rest: "distinct (map f (concat T))"
    and disj: "f ` set row \<inter> f ` set (concat T) = {}" by auto
  have mem: "f (T ! a ! b) \<in> f ` set (concat T)" if "a < length T" "b < length (T ! a)" for a b
    using that by (auto intro!: imageI bexI[of _ "T ! a"])
  show ?case
  proof (cases j)
    case 0
    note j = this
    show ?thesis
    proof (cases j')
      case 0
      with j Cons.prems row show ?thesis
        using nth_eq_iff_index_eq[of "map f row" l l'] by simp
    next
      case (Suc b)
      with j Cons.prems have l: "l < length row" and b: "b < length T" "l' < length (T ! b)"
        and eq: "f (row ! l) = f (T ! b ! l')" by simp_all
      from l have "f (row ! l) \<in> f ` set row" by simp
      moreover from mem[OF b] eq have "f (row ! l) \<in> f ` set (concat T)" by simp
      ultimately show ?thesis using disj by blast
    qed
  next
    case (Suc a)
    note j = this
    show ?thesis
    proof (cases j')
      case 0
      with j Cons.prems have l: "l' < length row" and a: "a < length T" "l < length (T ! a)"
        and eq: "f (row ! l') = f (T ! a ! l)" by simp_all
      from l have "f (row ! l') \<in> f ` set row" by simp
      moreover from mem[OF a] eq have "f (row ! l') \<in> f ` set (concat T)" by simp
      ultimately show ?thesis using disj by blast
    next
      case (Suc b)
      with j Cons.prems Cons.IH[OF rest, of a b] show ?thesis by simp
    qed
  qed
qed

lemma filter_out_nth:
  assumes "distinct (map f xs)" and "k < length xs"
  shows "filter (\<lambda>y. f y \<noteq> f (xs ! k)) xs = take k xs @ drop (Suc k) xs"
proof -
  have xs: "xs = take k xs @ xs ! k # drop (Suc k) xs" using assms(2) by (rule id_take_nth_drop)
  from assms(1) have "distinct (map f (take k xs) @ f (xs ! k) # map f (drop (Suc k) xs))"
    using arg_cong[OF xs, of "map f"] by simp
  then have na: "f (xs ! k) \<notin> f ` set (take k xs)"
    and nb: "f (xs ! k) \<notin> f ` set (drop (Suc k) xs)" by simp_all
  from na have a: "\<forall>y \<in> set (take k xs). f y \<noteq> f (xs ! k)" by (metis imageI)
  from nb have b: "\<forall>y \<in> set (drop (Suc k) xs). f y \<noteq> f (xs ! k)" by (metis imageI)
  have "filter (\<lambda>y. f y \<noteq> f (xs ! k)) (take k xs @ xs ! k # drop (Suc k) xs)
      = take k xs @ drop (Suc k) xs"
    using a b by (simp add: filter_id_conv)
  with xs show ?thesis by simp
qed

lemma distinct_row:
  "distinct (map f (concat T)) \<Longrightarrow> i < length T \<Longrightarrow> distinct (map f (T ! i))"
proof (induction T arbitrary: i)
  case Nil
  then show ?case by simp
next
  case (Cons row T)
  then show ?case by (cases i) simp_all
qed

lemma removeCell_at:
  assumes "distinct (map cellId (concat T))" and "i < length T" and "k < length (T ! i)"
  shows "removeCell (T ! i ! k) T = T[i := take k (T ! i) @ drop (Suc k) (T ! i)]"
proof (rule nth_equalityI)
  show "length (removeCell (T ! i ! k) T) = length (T[i := take k (T ! i) @ drop (Suc k) (T ! i)])"
    by (simp add: removeCell_def)
next
  fix j assume "j < length (removeCell (T ! i ! k) T)"
  then have j: "j < length T" by (simp add: removeCell_def)
  show "removeCell (T ! i ! k) T ! j = T[i := take k (T ! i) @ drop (Suc k) (T ! i)] ! j"
  proof (cases "j = i")
    case True
    from assms(1,2) have "distinct (map cellId (T ! i))" by (rule distinct_row)
    from filter_out_nth[OF this assms(3)] True j show ?thesis by (simp add: removeCell_def)
  next
    case False
    have "\<forall>y \<in> set (T ! j). cellId y \<noteq> cellId (T ! i ! k)"
    proof
      fix y assume "y \<in> set (T ! j)"
      then obtain l where l: "l < length (T ! j)" "y = T ! j ! l" by (auto simp: in_set_conv_nth)
      with ids_coordinates[OF assms(1) j l(1) assms(2,3)] False
      show "cellId y \<noteq> cellId (T ! i ! k)" by auto
    qed
    with False j show ?thesis by (simp add: removeCell_def filter_id_conv)
  qed
qed

lemma insertCell_after_remove:
  assumes "i < length T" and "k < length (T ! i)"
  shows "insertCell c (i, k) (T[i := take k (T ! i) @ drop (Suc k) (T ! i)])
     = Some (T[i := (T ! i)[k := c]])"
proof -
  let ?row = "take k (T ! i) @ drop (Suc k) (T ! i)"
  from assms(1) have row: "T[i := ?row] ! i = ?row" by simp
  from assms(2) have "take k ?row @ [c] @ drop k ?row = (T ! i)[k := c]"
    by (simp add: upd_conv_take_nth_drop min_def)
  with assms row show ?thesis unfolding insertCell_def by simp
qed

lemma cells_update:
  assumes "i < length T" and "x \<in> set (concat (T[i := (T ! i)[k := c]]))"
  shows "x = c \<or> x \<in> set (concat T)"
proof -
  from assms(2) obtain row where row: "row \<in> set (T[i := (T ! i)[k := c]])" and x: "x \<in> set row"
    by auto
  from row have "row = (T ! i)[k := c] \<or> row \<in> set T"
    using set_update_subset_insert[of T i "(T ! i)[k := c]"] by auto
  then show ?thesis
  proof
    assume "row = (T ! i)[k := c]"
    with x have "x = c \<or> x \<in> set (T ! i)"
      using set_update_subset_insert[of "T ! i" k c] by auto
    moreover from assms(1) have "T ! i \<in> set T" by simp
    ultimately show ?thesis by auto
  next
    assume "row \<in> set T"
    with x show ?thesis by auto
  qed
qed

lemma disjoint_insert_sub:
  "A \<subseteq> insert a B \<Longrightarrow> B \<inter> C = {} \<Longrightarrow> a \<notin> C \<Longrightarrow> A \<inter> C = {}"
  by blast

lemma update_fresh_distinct:
  assumes "distinct (map f (concat T))" and "i < length T" and "k < length (T ! i)"
    and "f c \<notin> f ` set (concat T)"
  shows "distinct (map f (concat (T[i := (T ! i)[k := c]])))"
  using assms
proof (induction T arbitrary: i)
  case Nil
  then show ?case by simp
next
  case (Cons row T)
  from Cons.prems(1) have row: "distinct (map f row)" and rest: "distinct (map f (concat T))"
    and disj: "f ` set row \<inter> f ` set (concat T) = {}" by auto
  from Cons.prems(4) have c1: "f c \<notin> f ` set row" and c2: "f c \<notin> f ` set (concat T)" by auto
  show ?case
  proof (cases i)
    case 0
    with Cons.prems(3) have k: "k < length row" by simp
    from c1 have "f c \<notin> set (map f row) - {map f row ! k}" by simp
    with row have "distinct ((map f row)[k := f c])" by (rule distinct_list_update)
    then have d: "distinct (map f (row[k := c]))" by (simp add: map_update)
    have "f ` set (row[k := c]) \<subseteq> insert (f c) (f ` set row)"
      using set_update_subset_insert[of row k c] by auto
    from this disj c2 have "f ` set (row[k := c]) \<inter> f ` set (concat T) = {}"
      by (rule disjoint_insert_sub)
    with d rest 0 show ?thesis by simp
  next
    case (Suc a)
    with Cons.prems have a: "a < length T" "k < length (T ! a)" by simp_all
    from Cons.IH[OF rest a c2] have d: "distinct (map f (concat (T[a := (T ! a)[k := c]])))" .
    have "f ` set (concat (T[a := (T ! a)[k := c]])) \<subseteq> insert (f c) (f ` set (concat T))"
    proof
      fix y assume "y \<in> f ` set (concat (T[a := (T ! a)[k := c]]))"
      then obtain x where x: "x \<in> set (concat (T[a := (T ! a)[k := c]]))" and y: "y = f x"
        by (rule imageE)
      from cells_update[OF a(1) x] have "x = c \<or> x \<in> set (concat T)" .
      with y show "y \<in> insert (f c) (f ` set (concat T))" by blast
    qed
    moreover from disj have "f ` set (concat T) \<inter> f ` set row = {}" by (simp add: Int_commute)
    ultimately have "f ` set (concat (T[a := (T ! a)[k := c]])) \<inter> f ` set row = {}"
      using c1 by (rule disjoint_insert_sub)
    then have "f ` set row \<inter> f ` set (concat (T[a := (T ! a)[k := c]])) = {}"
      by (simp add: Int_commute)
    with d row Suc show ?thesis by simp
  qed
qed

lemma relabel_same:
  assumes "\<forall>x \<in> set (concat T). cellId x = cellId c \<longrightarrow> x = c"
  shows "map (map (\<lambda>x. if cellId x = cellId c then c else x)) T = T"
proof (rule map_idI)
  fix row assume "row \<in> set T"
  with assms have "\<forall>x \<in> set row. cellId x = cellId c \<longrightarrow> x = c" by auto
  then show "map (\<lambda>x. if cellId x = cellId c then c else x) row = row"
    by (intro map_idI) auto
qed

lemma slot_step:
  assumes wf: "distinct (map cellId (concat T))"
    and bound: "\<forall>x \<in> set (concat T). cellId x < nextCellId st"
    and i: "i < length T" and k: "k < length (T ! i)"
    and T: "tableOf st = T"
    and pos: "k \<noteq> firstColumn sel \<longrightarrow> insertPosition st = Some (i, k)"
    and inside: "i \<le> lastRow sel" "k \<le> lastColumn sel"
    and plain: "rowspan p = 1" "colspan p = 1"
  shows "replaceSlots sel [[Some p]] 1 1
       (\<lparr>slotCell = T ! i ! k, slotRow = i, slotColumn = k, cellAnchorRow = i,
         cellAnchorColumn = k, slotCellIndex = k\<rparr> # rest) st
     = replaceSlots sel [[Some p]] 1 1 rest
         (st\<lparr>tableOf := T[i := (T ! i)[k := cloneElement (nextCellId st) p]],
             nextCellId := Suc (nextCellId st),
             cellsToSelect := cellsToSelect st @ [cloneElement (nextCellId st) p],
             insertPosition := Some (i, Suc k)\<rparr>)"
proof -
  let ?s = "\<lparr>slotCell = T ! i ! k, slotRow = i, slotColumn = k, cellAnchorRow = i,
         cellAnchorColumn = k, slotCellIndex = k\<rparr>"
  let ?c = "cloneElement (nextCellId st) p"
  let ?T = "T[i := (T ! i)[k := ?c]]"
  have ipos: "(if slotColumn ?s = firstColumn sel then Some (getPositionBefore ?s)
      else insertPosition st) = Some (i, k)"
    using pos by (simp add: getPositionBefore_def)
  have rep: "replaceTableSlotCell ?s (Some ?c) (Some (i, k)) (tableOf st) = Inr (?T, Some ?c)"
    unfolding T replaceTableSlotCell_def
    by (simp add: isAnchor_def removeCell_at[OF wf i k] insertCell_after_remove[OF i k])
  from plain inside have trim:
    "trimTableCellIfNeeded ?c (slotRow ?s) (slotColumn ?s) (lastRow sel) (lastColumn sel) = ?c"
    by (intro trim_plain) (simp_all add: cloneElement_def)
  have "\<forall>x \<in> set (concat ?T). cellId x = cellId ?c \<longrightarrow> x = ?c"
  proof (intro ballI impI)
    fix x assume "x \<in> set (concat ?T)" and id: "cellId x = cellId ?c"
    from cells_update[OF i this(1)] have "x = ?c \<or> x \<in> set (concat T)" .
    moreover have "x \<notin> set (concat T)"
    proof
      assume "x \<in> set (concat T)"
      with bound have "cellId x < nextCellId st" by blast
      with id show False by (simp add: cloneElement_def)
    qed
    ultimately show "x = ?c" by blast
  qed
  then have relabel: "map (map (\<lambda>x. if cellId x = cellId ?c then ?c else x)) ?T = ?T"
    by (rule relabel_same)
  have look: "lookupPastedCell [[Some p]] (slotRow ?s - firstRow sel) (slotColumn ?s - firstColumn sel) 1 1
      = Inr (Some p)"
    using lookup_single by simp
  have next_pos: "map_option (\<lambda>(r, i). (r, i + 1)) (Some (i, k)) = Some (i, Suc k)" by simp
  show ?thesis
    apply (subst replaceSlots.simps)
    apply (simp only: Let_def ipos look rep trim relabel next_pos sum.case prod.case option.case
        option.map option.simps if_False Suc_eq_plus1)
    done
qed

text \<open>The slots of one row, then of the rows of the selection.\<close>

lemma row_walk:
  assumes plain: "rowspan p = 1" "colspan p = 1" and row: "i \<le> lastRow sel"
  shows "Suc (lastColumn sel) - k = d \<Longrightarrow> distinct (map cellId (concat T)) \<Longrightarrow>
     \<forall>x \<in> set (concat T). cellId x < nextCellId st \<Longrightarrow> i < length T \<Longrightarrow>
     lastColumn sel < length (T ! i) \<Longrightarrow> tableOf st = T \<Longrightarrow>
     k \<noteq> firstColumn sel \<longrightarrow> insertPosition st = Some (i, k) \<Longrightarrow>
     \<exists>st'. replaceSlots sel [[Some p]] 1 1
             (map (\<lambda>l. \<lparr>slotCell = T ! i ! l, slotRow = i, slotColumn = l, cellAnchorRow = i,
                          cellAnchorColumn = l, slotCellIndex = l\<rparr>) [k..<Suc (lastColumn sel)] @ rest) st
           = replaceSlots sel [[Some p]] 1 1 rest st' \<and>
       length (tableOf st') = length T \<and>
       (\<forall>j < length T. length (tableOf st' ! j) = length (T ! j)) \<and>
       (\<forall>j < length T. \<forall>l < length (T ! j).
          if j = i \<and> k \<le> l \<and> l \<le> lastColumn sel then isCloneOf (tableOf st' ! j ! l) p
          else tableOf st' ! j ! l = T ! j ! l) \<and>
       distinct (map cellId (concat (tableOf st'))) \<and>
       (\<forall>x \<in> set (concat (tableOf st')). cellId x < nextCellId st')"
proof (induction d arbitrary: k T st)
  case 0
  then have "[k..<Suc (lastColumn sel)] = []" by simp
  with 0 show ?case by (intro exI[of _ st]) auto
next
  case (Suc d)
  let ?lc = "lastColumn sel"
  let ?c = "cloneElement (nextCellId st) p"
  let ?T = "T[i := (T ! i)[k := ?c]]"
  let ?st = "st\<lparr>tableOf := ?T, nextCellId := Suc (nextCellId st),
      cellsToSelect := cellsToSelect st @ [?c], insertPosition := Some (i, Suc k)\<rparr>"
  let ?slot = "\<lambda>T l. \<lparr>slotCell = T ! i ! l, slotRow = i, slotColumn = l, cellAnchorRow = i,
      cellAnchorColumn = l, slotCellIndex = l\<rparr>"
  from Suc.prems(1) have k: "k \<le> ?lc" by simp
  with Suc.prems(5) have kl: "k < length (T ! i)" by simp
  from k have upt: "[k..<Suc ?lc] = k # [Suc k..<Suc ?lc]" by (simp add: upt_conv_Cons)
  have same: "map (?slot T) [Suc k..<Suc ?lc] = map (?slot ?T) [Suc k..<Suc ?lc]"
    using Suc.prems(4) by (intro map_cong) auto
  have step: "replaceSlots sel [[Some p]] 1 1 (map (?slot T) [k..<Suc ?lc] @ rest) st
      = replaceSlots sel [[Some p]] 1 1 (map (?slot ?T) [Suc k..<Suc ?lc] @ rest) ?st"
    unfolding upt same[symmetric]
    using slot_step[OF Suc.prems(2,3,4) kl Suc.prems(6,7) row k plain,
        of "map (?slot T) [Suc k..<Suc ?lc] @ rest"]
    by simp
  have cid: "cellId ?c = nextCellId st" by (simp add: cloneElement_def)
  have fresh: "cellId ?c \<notin> cellId ` set (concat T)"
  proof
    assume "cellId ?c \<in> cellId ` set (concat T)"
    then obtain x where "x \<in> set (concat T)" and "cellId ?c = cellId x" by (rule imageE)
    with Suc.prems(3) cid show False by force
  qed
  have d1: "distinct (map cellId (concat ?T))"
    using Suc.prems(2,4) kl fresh by (rule update_fresh_distinct)
  have b1: "\<forall>x \<in> set (concat (tableOf ?st)). cellId x < nextCellId ?st"
  proof
    fix x assume "x \<in> set (concat (tableOf ?st))"
    then have "x \<in> set (concat ?T)" by simp
    from cells_update[OF Suc.prems(4) this] have "x = ?c \<or> x \<in> set (concat T)" .
    then show "cellId x < nextCellId ?st"
    proof
      assume "x = ?c"
      with cid show ?thesis by simp
    next
      assume "x \<in> set (concat T)"
      with Suc.prems(3) have "cellId x < nextCellId st" by blast
      then show ?thesis by simp
    qed
  qed
  from Suc.prems(1) have m: "Suc ?lc - Suc k = d" by simp
  have i1: "i < length ?T" using Suc.prems(4) by simp
  have l1: "?lc < length (?T ! i)" using Suc.prems(4,5) by simp
  have p1: "Suc k \<noteq> firstColumn sel \<longrightarrow> insertPosition ?st = Some (i, Suc k)" by simp
  have t1: "tableOf ?st = ?T" by simp
  from Suc.IH[OF m d1 b1[unfolded t1] i1 l1 t1 p1]
  obtain st' where run: "replaceSlots sel [[Some p]] 1 1 (map (?slot ?T) [Suc k..<Suc ?lc] @ rest) ?st
        = replaceSlots sel [[Some p]] 1 1 rest st'"
    and len: "length (tableOf st') = length ?T"
    and lens: "\<forall>j < length ?T. length (tableOf st' ! j) = length (?T ! j)"
    and cells: "\<forall>j < length ?T. \<forall>l < length (?T ! j).
          if j = i \<and> Suc k \<le> l \<and> l \<le> ?lc then isCloneOf (tableOf st' ! j ! l) p
          else tableOf st' ! j ! l = ?T ! j ! l"
    and dist: "distinct (map cellId (concat (tableOf st')))"
    and bnd: "\<forall>x \<in> set (concat (tableOf st')). cellId x < nextCellId st'"
    by blast
  have lens': "\<forall>j < length T. length (tableOf st' ! j) = length (T ! j)"
  proof (intro allI impI)
    fix j assume j: "j < length T"
    with lens have "length (tableOf st' ! j) = length (?T ! j)" by simp
    also have "\<dots> = length (T ! j)" using j by (cases "j = i") simp_all
    finally show "length (tableOf st' ! j) = length (T ! j)" .
  qed
  have cells': "\<forall>j < length T. \<forall>l < length (T ! j).
          if j = i \<and> k \<le> l \<and> l \<le> ?lc then isCloneOf (tableOf st' ! j ! l) p
          else tableOf st' ! j ! l = T ! j ! l"
  proof (intro allI impI)
    fix j l assume j: "j < length T" and l: "l < length (T ! j)"
    from j l have l': "l < length (?T ! j)" by (cases "j = i") simp_all
    from j have j': "j < length ?T" by simp
    from cells[rule_format, OF j' l']
    have c: "if j = i \<and> Suc k \<le> l \<and> l \<le> ?lc then isCloneOf (tableOf st' ! j ! l) p
          else tableOf st' ! j ! l = ?T ! j ! l" .
    show "if j = i \<and> k \<le> l \<and> l \<le> ?lc then isCloneOf (tableOf st' ! j ! l) p
          else tableOf st' ! j ! l = T ! j ! l"
    proof (cases "j = i \<and> l = k")
      case True
      with c j l have "tableOf st' ! j ! l = ?c" by simp
      moreover have "isCloneOf ?c p" by (simp add: isCloneOf_def cloneElement_def)
      ultimately show ?thesis using True k by simp
    next
      case False
      with j l have "?T ! j ! l = T ! j ! l" by (cases "j = i") auto
      with c False show ?thesis by (auto split: if_splits)
    qed
  qed
  from step run len lens' cells' dist bnd show ?case
    by (intro exI[of _ st']) simp
qed

lemma rows_walk:
  assumes plain: "rowspan p = 1" "colspan p = 1"
  shows "Suc (lastRow sel) - i = d \<Longrightarrow> distinct (map cellId (concat T)) \<Longrightarrow>
     \<forall>x \<in> set (concat T). cellId x < nextCellId st \<Longrightarrow> lastRow sel < length T \<Longrightarrow>
     \<forall>j < length T. lastColumn sel < length (T ! j) \<Longrightarrow> tableOf st = T \<Longrightarrow>
     \<exists>st'. replaceSlots sel [[Some p]] 1 1
             (concat (map (\<lambda>r. map (\<lambda>l. \<lparr>slotCell = T ! r ! l, slotRow = r, slotColumn = l,
                                             cellAnchorRow = r, cellAnchorColumn = l, slotCellIndex = l\<rparr>)
                                   [firstColumn sel..<Suc (lastColumn sel)])
                        [i..<Suc (lastRow sel)])) st
           = Inr st' \<and>
       length (tableOf st') = length T \<and>
       (\<forall>j < length T. length (tableOf st' ! j) = length (T ! j)) \<and>
       (\<forall>j < length T. \<forall>l < length (T ! j).
          if i \<le> j \<and> j \<le> lastRow sel \<and> firstColumn sel \<le> l \<and> l \<le> lastColumn sel
          then isCloneOf (tableOf st' ! j ! l) p
          else tableOf st' ! j ! l = T ! j ! l)"
proof (induction d arbitrary: i T st)
  case 0
  then have "[i..<Suc (lastRow sel)] = []" by simp
  with 0 show ?case by (intro exI[of _ st]) auto
next
  case (Suc d)
  let ?lr = "lastRow sel" and ?lc = "lastColumn sel" and ?fc = "firstColumn sel"
  let ?slot = "\<lambda>T r l. \<lparr>slotCell = T ! r ! l, slotRow = r, slotColumn = l,
      cellAnchorRow = r, cellAnchorColumn = l, slotCellIndex = l\<rparr>"
  let ?rest = "\<lambda>T. concat (map (\<lambda>r. map (?slot T r) [?fc..<Suc ?lc]) [Suc i..<Suc ?lr])"
  from Suc.prems(1) have i: "i \<le> ?lr" by simp
  with Suc.prems(4) have il: "i < length T" by simp
  with Suc.prems(5) have cl: "?lc < length (T ! i)" by simp
  from i have upt: "[i..<Suc ?lr] = i # [Suc i..<Suc ?lr]" by (simp add: upt_conv_Cons)
  have start: "?fc \<noteq> ?fc \<longrightarrow> insertPosition st = Some (i, ?fc)" by simp
  from row_walk[OF plain i refl Suc.prems(2,3) il cl Suc.prems(6) start, of "?rest T"]
  obtain st1 where run1: "replaceSlots sel [[Some p]] 1 1
        (map (?slot T i) [?fc..<Suc ?lc] @ ?rest T) st
        = replaceSlots sel [[Some p]] 1 1 (?rest T) st1"
    and len1: "length (tableOf st1) = length T"
    and lens1: "\<forall>j < length T. length (tableOf st1 ! j) = length (T ! j)"
    and cells1: "\<forall>j < length T. \<forall>l < length (T ! j).
          if j = i \<and> ?fc \<le> l \<and> l \<le> ?lc then isCloneOf (tableOf st1 ! j ! l) p
          else tableOf st1 ! j ! l = T ! j ! l"
    and dist1: "distinct (map cellId (concat (tableOf st1)))"
    and bnd1: "\<forall>x \<in> set (concat (tableOf st1)). cellId x < nextCellId st1"
    by blast
  let ?T = "tableOf st1"
  have same: "?rest T = ?rest ?T"
  proof (intro arg_cong[of _ _ concat] map_cong refl)
    fix r l assume "r \<in> set [Suc i..<Suc ?lr]" and "l \<in> set [?fc..<Suc ?lc]"
    then have r: "Suc i \<le> r" "r \<le> ?lr" and l: "l \<le> ?lc" by auto
    from r Suc.prems(4) have rl: "r < length T" by simp
    with Suc.prems(5) l have ll: "l < length (T ! r)" by auto
    from cells1[rule_format, OF rl ll] r have "?T ! r ! l = T ! r ! l" by simp
    then show "?slot T r l = ?slot ?T r l" by simp
  qed
  from Suc.prems(1) have m: "Suc ?lr - Suc i = d" by simp
  from Suc.prems(4) len1 have lr1: "?lr < length ?T" by simp
  from Suc.prems(5) len1 lens1 have lc1: "\<forall>j < length ?T. ?lc < length (?T ! j)" by simp
  from Suc.IH[OF m dist1 bnd1 lr1 lc1 refl]
  obtain st' where run: "replaceSlots sel [[Some p]] 1 1 (?rest ?T) st1 = Inr st'"
    and len: "length (tableOf st') = length ?T"
    and lens: "\<forall>j < length ?T. length (tableOf st' ! j) = length (?T ! j)"
    and cells: "\<forall>j < length ?T. \<forall>l < length (?T ! j).
          if Suc i \<le> j \<and> j \<le> ?lr \<and> ?fc \<le> l \<and> l \<le> ?lc
          then isCloneOf (tableOf st' ! j ! l) p
          else tableOf st' ! j ! l = ?T ! j ! l"
    by blast
  have whole: "replaceSlots sel [[Some p]] 1 1
      (concat (map (\<lambda>r. map (?slot T r) [?fc..<Suc ?lc]) [i..<Suc ?lr])) st = Inr st'"
    unfolding upt using run1 run same by simp
  have cells': "\<forall>j < length T. \<forall>l < length (T ! j).
          if i \<le> j \<and> j \<le> ?lr \<and> ?fc \<le> l \<and> l \<le> ?lc
          then isCloneOf (tableOf st' ! j ! l) p
          else tableOf st' ! j ! l = T ! j ! l"
  proof (intro allI impI)
    fix j l assume j: "j < length T" and l: "l < length (T ! j)"
    from j len1 have j': "j < length ?T" by simp
    from l lens1 j have l': "l < length (?T ! j)" by simp
    note a = cells1[rule_format, OF j l]
    note b = cells[rule_format, OF j' l']
    show "if i \<le> j \<and> j \<le> ?lr \<and> ?fc \<le> l \<and> l \<le> ?lc
          then isCloneOf (tableOf st' ! j ! l) p
          else tableOf st' ! j ! l = T ! j ! l"
    proof (cases "j = i")
      case True
      with b have "tableOf st' ! j ! l = ?T ! j ! l" by simp
      with a True i show ?thesis by (auto split: if_splits)
    next
      case False
      with a have "?T ! j ! l = T ! j ! l" by simp
      with b False show ?thesis by (auto split: if_splits)
    qed
  qed
  from whole len len1 lens lens1 cells' show ?case
    by (intro exI[of _ st']) simp
qed

lemma threeByThree_plain:
  "\<forall>row \<in> set threeByThree. \<forall>c \<in> set row. rowspan c = 1 \<and> colspan c = 1"
  by (simp add: threeByThree_def plainCell_def)

lemma threeByThree_walk:
  "tableWalker threeByThree 1 (Some 1) 1 (Some 2) True =
     [\<lparr>slotCell = plainCell 11 ''11'', slotRow = 1, slotColumn = 1,
        cellAnchorRow = 1, cellAnchorColumn = 1, slotCellIndex = 1\<rparr>,
      \<lparr>slotCell = plainCell 12 ''12'', slotRow = 1, slotColumn = 2,
        cellAnchorRow = 1, cellAnchorColumn = 2, slotCellIndex = 2\<rparr>]"
  unfolding tableWalker_def walkRows_plain[OF threeByThree_plain]
  by (simp add: threeByThree_def upt_rec)

lemma tiling_example:
  "replaceSelectedCellsWithPasted horizontalSplit verticalSplit [[plainCell 50 ''x'']] 1 1
     threeByThree 0 0 innerSelection 1000 = Inr tiledState"
proof -
  have m: "createLocationMap [[plainCell 50 ''x'']] 1 1 = Inr [[Some (plainCell 50 ''x'')]]"
    using createLocationMap_single[of "plainCell 50 ''x''"] by (simp add: plainCell_def)
  have w: "tableWalker threeByThree (firstRow innerSelection) (Some (lastRow innerSelection))
      (firstColumn innerSelection) (Some (lastColumn innerSelection)) True
      = [\<lparr>slotCell = plainCell 11 ''11'', slotRow = 1, slotColumn = 1,
        cellAnchorRow = 1, cellAnchorColumn = 1, slotCellIndex = 1\<rparr>,
      \<lparr>slotCell = plainCell 12 ''12'', slotRow = 1, slotColumn = 2,
        cellAnchorRow = 1, cellAnchorColumn = 2, slotCellIndex = 2\<rparr>]"
    using threeByThree_walk by (simp add: innerSelection_def)
  show ?thesis
    unfolding replaceSelectedCellsWithPasted_def m w
    by (simp add: innerSelection_def threeByThree_def plainCell_def isAnchor_def
          lookupPastedCell_def replaceTableSlotCell_def removeCell_def insertCell_def cloneElement_def
          getPositionBefore_def trimTableCellIfNeeded_def tiledState_def Let_def)
qed

text \<open>
  C1. A pasted table of one cell without spans, transplanted into a selection of \<open>r\<close> rows and
  \<open>c\<close> columns of a table without spanning cells, whose cells have distinct identities, all
  below the identity of the next clone. The transplant succeeds. The slot walk inserts
  \<open>r * c\<close> cells, every one a clone of the pasted cell, in the order of the slots; the cells to
  select are these, followed by the cells that the splits at the headings make. The pasted
  cell of every slot is the one at \<open>(row - firstRow) mod 1\<close>, \<open>(column - firstColumn) mod 1\<close> of
  the location map. When no heading crosses the selection no further cell is made, and the
  table keeps its shape, with a clone of the pasted cell at every slot of the selection and
  its former cell at every other place.
\<close>

theorem tiling_single_cell:
  assumes "\<forall>row \<in> set t. \<forall>c \<in> set row. rowspan c = 1 \<and> colspan c = 1"
    and "lastRow sel < length t"
    and "\<forall>row \<in> set t. lastColumn sel < length row"
    and "distinct (map cellId (concat t))"
    and "\<forall>c \<in> set (concat t). cellId c < fresh"
    and "rowspan p = 1" and "colspan p = 1"
  shows "\<exists>st' headingCells.
     replaceSelectedCellsWithPasted horizontalSplit verticalSplit [[p]] 1 1 t
       headingRows headingColumns sel fresh = Inr st' \<and>
     cellsToSelect st' =
       map (\<lambda>k. cloneElement (fresh + k) p)
         [0..<(Suc (lastRow sel) - firstRow sel) * (Suc (lastColumn sel) - firstColumn sel)]
       @ headingCells \<and>
     (\<forall>k < (Suc (lastRow sel) - firstRow sel) * (Suc (lastColumn sel) - firstColumn sel).
        isCloneOf (cloneElement (fresh + k) p) p) \<and>
     (\<forall>(row, column) \<in> set (rectangleSlots sel).
        lookupPastedCell [[Some p]] (row - firstRow sel) (column - firstColumn sel) 1 1
          = Inr (Some p)) \<and>
     (\<not> (firstRow sel < headingRows \<and> headingRows \<le> lastRow sel) \<and>
      \<not> (firstColumn sel < headingColumns \<and> headingColumns \<le> lastColumn sel) \<longrightarrow>
        headingCells = [] \<and>
        length (tableOf st') = length t \<and>
        (\<forall>j < length t. length (tableOf st' ! j) = length (t ! j)) \<and>
        (\<forall>j < length t. \<forall>l < length (t ! j).
           if firstRow sel \<le> j \<and> j \<le> lastRow sel \<and> firstColumn sel \<le> l \<and> l \<le> lastColumn sel
           then isCloneOf (tableOf st' ! j ! l) p
           else tableOf st' ! j ! l = t ! j ! l))"
proof -
  let ?slots = "tableWalker t (firstRow sel) (Some (lastRow sel)) (firstColumn sel) (Some (lastColumn sel)) True"
  let ?rows = "firstRow sel < headingRows \<and> headingRows \<le> lastRow sel"
  let ?columns = "firstColumn sel < headingColumns \<and> headingColumns \<le> lastColumn sel"
  let ?n = "(Suc (lastRow sel) - firstRow sel) * (Suc (lastColumn sel) - firstColumn sel)"
  let ?st0 = "\<lparr>tableOf = t, nextCellId = fresh, cellsToSelect = [], insertPosition = None\<rparr>"
  note walk = plain_table_walk[OF assms(1,2,3)]
  from assms(3) have cols: "\<forall>j < length t. lastColumn sel < length (t ! j)" by simp
  from assms(5) have bound: "\<forall>x \<in> set (concat t). cellId x < nextCellId ?st0" by simp
  have t0: "tableOf ?st0 = t" by simp
  from rows_walk[OF assms(6,7) refl assms(4) bound assms(2) cols t0, of "firstRow sel"]
  obtain st where run: "replaceSlots sel [[Some p]] 1 1 ?slots ?st0 = Inr st"
    and len: "length (tableOf st) = length t"
    and lens: "\<forall>j < length t. length (tableOf st ! j) = length (t ! j)"
    and table: "\<forall>j < length t. \<forall>l < length (t ! j).
           if firstRow sel \<le> j \<and> j \<le> lastRow sel \<and> firstColumn sel \<le> l \<and> l \<le> lastColumn sel
           then isCloneOf (tableOf st ! j ! l) p
           else tableOf st ! j ! l = t ! j ! l"
    unfolding walk by blast
  have inside: "\<forall>s \<in> set ?slots. slotRow s \<le> lastRow sel \<and> slotColumn s \<le> lastColumn sel"
    by (simp add: tableWalker_def)
  from replaceSlots_single[OF assms(6,7) run inside]
  have "cellsToSelect st = map (\<lambda>k. cloneElement (fresh + k) p) [0..<length ?slots]" by simp
  moreover have "length ?slots = ?n" unfolding walk length_plain_walk by (simp only: length_upt)
  ultimately have cells: "cellsToSelect st = map (\<lambda>k. cloneElement (fresh + k) p) [0..<?n]"
    by simp
  let ?t1 = "if ?rows then fst (horizontalSplit (tableOf st) headingRows
      (firstColumn sel, lastColumn sel) (firstRow sel)) else tableOf st"
  let ?new = "(if ?rows then snd (horizontalSplit (tableOf st) headingRows
      (firstColumn sel, lastColumn sel) (firstRow sel)) else [])
    @ (if ?columns then snd (verticalSplit ?t1 headingColumns (firstRow sel, lastRow sel)) else [])"
  let ?t2 = "if ?columns then fst (verticalSplit ?t1 headingColumns (firstRow sel, lastRow sel))
    else ?t1"
  let ?st' = "st\<lparr>tableOf := ?t2, cellsToSelect := cellsToSelect st @ ?new\<rparr>"
  have whole: "replaceSelectedCellsWithPasted horizontalSplit verticalSplit [[p]] 1 1 t
       headingRows headingColumns sel fresh = Inr ?st'"
    using run
    by (simp add: replaceSelectedCellsWithPasted_def createLocationMap_single[OF assms(7)]
          Let_def case_prod_beta)
  have sel: "cellsToSelect ?st' = map (\<lambda>k. cloneElement (fresh + k) p) [0..<?n] @ ?new"
    using cells by simp
  have clones: "\<forall>k < ?n. isCloneOf (cloneElement (fresh + k) p) p"
    by (simp add: isCloneOf_def cloneElement_def)
  have look: "\<forall>(row, column) \<in> set (rectangleSlots sel).
        lookupPastedCell [[Some p]] (row - firstRow sel) (column - firstColumn sel) 1 1
          = Inr (Some p)"
    by (simp add: lookup_single)
  have plainly: "\<not> ?rows \<and> \<not> ?columns \<longrightarrow>
        ?new = [] \<and>
        length (tableOf ?st') = length t \<and>
        (\<forall>j < length t. length (tableOf ?st' ! j) = length (t ! j)) \<and>
        (\<forall>j < length t. \<forall>l < length (t ! j).
           if firstRow sel \<le> j \<and> j \<le> lastRow sel \<and> firstColumn sel \<le> l \<and> l \<le> lastColumn sel
           then isCloneOf (tableOf ?st' ! j ! l) p
           else tableOf ?st' ! j ! l = t ! j ! l)"
  proof
    assume no: "\<not> ?rows \<and> \<not> ?columns"
    then have r: "\<not> ?rows" and c: "\<not> ?columns" by (rule conjunct1, rule conjunct2)
    have "?new = []" by (simp only: if_not_P[OF r] if_not_P[OF c] append_Nil)
    moreover have "?t2 = tableOf st" by (simp only: if_not_P[OF r] if_not_P[OF c])
    then have "tableOf ?st' = tableOf st" by simp
    ultimately show "?new = [] \<and>
        length (tableOf ?st') = length t \<and>
        (\<forall>j < length t. length (tableOf ?st' ! j) = length (t ! j)) \<and>
        (\<forall>j < length t. \<forall>l < length (t ! j).
           if firstRow sel \<le> j \<and> j \<le> lastRow sel \<and> firstColumn sel \<le> l \<and> l \<le> lastColumn sel
           then isCloneOf (tableOf ?st' ! j ! l) p
           else tableOf ?st' ! j ! l = t ! j ! l)"
      using len lens table by (simp only:)
  qed
  from whole sel clones look plainly show ?thesis
    by (intro exI[of _ ?st'] exI[of _ ?new] conjI)
qed

theorem tiling_single_cell_witness:
  "replaceSelectedCellsWithPasted (\<lambda>t at limit start. (t, [])) (\<lambda>t at limit. (t, []))
       [[plainCell 50 ''x'']] 1 1 threeByThree 0 0 innerSelection 1000 = Inr tiledState \<and>
   cellsToSelect tiledState =
     [cloneElement 1000 (plainCell 50 ''x''), cloneElement 1001 (plainCell 50 ''x'')] \<and>
   isCloneOf (tableOf tiledState ! 1 ! 2) (plainCell 50 ''x'') \<and>
   tableOf tiledState ! 1 ! 0 = threeByThree ! 1 ! 0"
proof -
  let ?h = "\<lambda>(t :: tableRows) (at :: nat) (limit :: nat \<times> nat) (start :: nat). (t, [] :: cell list)"
  let ?v = "\<lambda>(t :: tableRows) (at :: nat) (limit :: nat \<times> nat). (t, [] :: cell list)"
  let ?p = "plainCell 50 ''x''"
  have run: "replaceSelectedCellsWithPasted ?h ?v [[?p]] 1 1
       threeByThree 0 0 innerSelection 1000 = Inr tiledState"
    by (rule tiling_example)
  have rows: "lastRow innerSelection < length threeByThree"
    and columns: "\<forall>row \<in> set threeByThree. lastColumn innerSelection < length row"
    and ids: "distinct (map cellId (concat threeByThree))"
    and fresh: "\<forall>c \<in> set (concat threeByThree). cellId c < 1000"
    and plain: "rowspan ?p = 1" "colspan ?p = 1"
    by (simp_all add: innerSelection_def threeByThree_def plainCell_def)
  from tiling_single_cell [OF threeByThree_plain rows columns ids fresh plain, of ?h ?v 0 0]
  obtain st' headingCells where
    "replaceSelectedCellsWithPasted ?h ?v [[?p]] 1 1 threeByThree 0 0 innerSelection 1000 = Inr st'"
    and cells: "cellsToSelect st' =
       map (\<lambda>k. cloneElement (1000 + k) ?p)
         [0..<(Suc (lastRow innerSelection) - firstRow innerSelection) *
              (Suc (lastColumn innerSelection) - firstColumn innerSelection)]
       @ headingCells"
    and none: "\<not> (firstRow innerSelection < 0 \<and> 0 \<le> lastRow innerSelection) \<and>
      \<not> (firstColumn innerSelection < 0 \<and> 0 \<le> lastColumn innerSelection) \<longrightarrow>
        headingCells = [] \<and>
        length (tableOf st') = length threeByThree \<and>
        (\<forall>j < length threeByThree. length (tableOf st' ! j) = length (threeByThree ! j)) \<and>
        (\<forall>j < length threeByThree. \<forall>l < length (threeByThree ! j).
           if firstRow innerSelection \<le> j \<and> j \<le> lastRow innerSelection \<and>
              firstColumn innerSelection \<le> l \<and> l \<le> lastColumn innerSelection
           then isCloneOf (tableOf st' ! j ! l) ?p
           else tableOf st' ! j ! l = threeByThree ! j ! l)"
    by (elim exE conjE)
  with run have st': "st' = tiledState" by simp
  from none have empty: "headingCells = []"
    and table: "\<forall>j < length threeByThree. \<forall>l < length (threeByThree ! j).
           if firstRow innerSelection \<le> j \<and> j \<le> lastRow innerSelection \<and>
              firstColumn innerSelection \<le> l \<and> l \<le> lastColumn innerSelection
           then isCloneOf (tableOf st' ! j ! l) ?p
           else tableOf st' ! j ! l = threeByThree ! j ! l"
    by simp_all
  from cells empty have a: "cellsToSelect tiledState =
     [cloneElement 1000 ?p, cloneElement 1001 ?p]"
    unfolding st' by (simp add: innerSelection_def upt_rec)
  have j: "1 < length threeByThree" and l2: "2 < length (threeByThree ! 1)"
    and l0: "0 < length (threeByThree ! 1)"
    by (simp_all add: threeByThree_def)
  from table[rule_format, OF j l2] have b: "isCloneOf (tableOf tiledState ! 1 ! 2) ?p"
    unfolding st' by (simp add: innerSelection_def)
  from table[rule_format, OF j l0] have c: "tableOf tiledState ! 1 ! 0 = threeByThree ! 1 ! 0"
    unfolding st' by (simp add: innerSelection_def)
  from run a b c show ?thesis by (intro conjI)
qed

section \<open>Properties of the insert handler\<close>

text \<open>
  C8. With no selected table cells the handler returns without an error, does not stop the
  event, so that the default insertion handles the content, and leaves the model as it was;
  the \<open>change\<close> block is never run.
\<close>

theorem no_selected_cells_is_noop:
  "\<exists>pasted. onInsertContent hasContent removeEmptyRowsColumns change selectable content [] m
     = Inr \<lparr>eventStopped = False, modelAfter = m, pastedTable = pasted\<rparr>"
  by (auto simp: onInsertContent_def split: option.splits)

lemma no_selected_cells_example:
  "onInsertContent (hasContentIgnoringWhitespaces [''table'']) (\<lambda>t. t) change NoSelectable
     (Item (Element 1 ''table'' [] [])) [] m
   = Inr \<lparr>eventStopped = False, modelAfter = m, pastedTable = Some (Element 1 ''table'' [] [])\<rparr>"
  by (simp add: onInsertContent_def)

lemma selected_cells_stop_event:
  "onInsertContent (hasContentIgnoringWhitespaces [''table'']) (\<lambda>t. t) (\<lambda>c p cells m. Inr m) NoSelectable
     (Item (Element 1 ''table'' [] [])) [Element 7 ''tableCell'' [] []] m
   = Inr \<lparr>eventStopped = True, modelAfter = m, pastedTable = Some (Element 1 ''table'' [] [])\<rparr>"
  by (simp add: onInsertContent_def)

section \<open>Properties of the rectangularizer\<close>

lemma isAffectedBySelection_iff:
  "0 < span \<Longrightarrow> lo \<le> hi \<Longrightarrow>
     isAffectedBySelection index span (lo, hi) \<longleftrightarrow> index \<le> hi \<and> lo < index + span"
  by (auto simp: isAffectedBySelection_def Let_def)

lemma doVerticalSplit_mem:
  assumes "q \<in> set (fst (doVerticalSplit t k lim))"
  shows "\<exists>p \<in> set t.
     (q = p \<and> \<not> (1 \<le> k \<and> cellColumn p < k \<and> k < cellColumn p + cellWidth p \<and>
                   isAffectedBySelection (cellRow p) (cellHeight p) lim)) \<or>
     (1 \<le> k \<and> cellColumn p < k \<and> k < cellColumn p + cellWidth p \<and>
      isAffectedBySelection (cellRow p) (cellHeight p) lim \<and>
      (q = p\<lparr>cellWidth := k - cellColumn p\<rparr> \<or>
       q = p\<lparr>cellColumn := k, cellWidth := cellColumn p + cellWidth p - k\<rparr>))"
proof (cases "k < 1")
  case True
  with assms show ?thesis by (auto simp: doVerticalSplit_def)
next
  case False
  with assms obtain p where p: "p \<in> set t"
    and q: "q \<in> set (if cellColumn p < k \<and> k < cellColumn p + cellWidth p \<and>
                isAffectedBySelection (cellRow p) (cellHeight p) lim
             then [fst (splitVertically p k), snd (splitVertically p k)] else [p])"
    by (auto simp: doVerticalSplit_def Let_def getHorizontallyOverlappingCells_def split: if_splits)
  show ?thesis
  proof (cases "cellColumn p < k \<and> k < cellColumn p + cellWidth p \<and>
                isAffectedBySelection (cellRow p) (cellHeight p) lim")
    case True
    with q False have "1 \<le> k \<and> cellColumn p < k \<and> k < cellColumn p + cellWidth p \<and>
      isAffectedBySelection (cellRow p) (cellHeight p) lim \<and>
      (q = p\<lparr>cellWidth := k - cellColumn p\<rparr> \<or>
       q = p\<lparr>cellColumn := k, cellWidth := cellColumn p + cellWidth p - k\<rparr>)"
      by (auto simp: splitVertically_def)
    with p show ?thesis by blast
  next
    case False
    with q have "q = p" by simp
    with False p show ?thesis by blast
  qed
qed

lemma doHorizontalSplit_mem:
  assumes "q \<in> set (fst (doHorizontalSplit t k lim startRow))"
  shows "\<exists>p \<in> set t.
     (q = p \<and> \<not> (1 \<le> k \<and> startRow \<le> cellRow p \<and> cellRow p < k \<and> k < cellRow p + cellHeight p \<and>
                   isAffectedBySelection (cellColumn p) (cellWidth p) lim)) \<or>
     (1 \<le> k \<and> startRow \<le> cellRow p \<and> cellRow p < k \<and> k < cellRow p + cellHeight p \<and>
      isAffectedBySelection (cellColumn p) (cellWidth p) lim \<and>
      (q = p\<lparr>cellHeight := k - cellRow p\<rparr> \<or>
       q = p\<lparr>cellRow := k, cellHeight := cellRow p + cellHeight p - k\<rparr>))"
proof (cases "k < 1")
  case True
  with assms show ?thesis by (auto simp: doHorizontalSplit_def)
next
  case False
  with assms obtain p where p: "p \<in> set t"
    and q: "q \<in> set (if startRow \<le> cellRow p \<and> cellRow p < k \<and> k < cellRow p + cellHeight p \<and>
                isAffectedBySelection (cellColumn p) (cellWidth p) lim
             then [fst (splitHorizontally p k), snd (splitHorizontally p k)] else [p])"
    by (auto simp: doHorizontalSplit_def Let_def getVerticallyOverlappingCells_def split: if_splits)
  show ?thesis
  proof (cases "startRow \<le> cellRow p \<and> cellRow p < k \<and> k < cellRow p + cellHeight p \<and>
                isAffectedBySelection (cellColumn p) (cellWidth p) lim")
    case True
    with q False have "1 \<le> k \<and> startRow \<le> cellRow p \<and> cellRow p < k \<and> k < cellRow p + cellHeight p \<and>
      isAffectedBySelection (cellColumn p) (cellWidth p) lim \<and>
      (q = p\<lparr>cellHeight := k - cellRow p\<rparr> \<or>
       q = p\<lparr>cellRow := k, cellHeight := cellRow p + cellHeight p - k\<rparr>)"
      by (auto simp: splitHorizontally_def)
    with p show ?thesis by blast
  next
    case False
    with q have "q = p" by simp
    with False p show ?thesis by blast
  qed
qed

lemma vertical_split_first:
  assumes "fr \<le> lr"
    and "\<forall>p \<in> set t. 0 < cellHeight p \<and> 0 < cellWidth p"
    and "q \<in> set (fst (doVerticalSplit t fc (fr, lr)))"
  shows "0 < cellHeight q \<and> 0 < cellWidth q \<and>
     (cellRow q \<le> lr \<and> fr < cellRow q + cellHeight q \<longrightarrow>
        \<not> (cellColumn q < fc \<and> fc < cellColumn q + cellWidth q))"
proof -
  from doVerticalSplit_mem[OF assms(3)] obtain p where p: "p \<in> set t"
    and c: "(q = p \<and> \<not> (1 \<le> fc \<and> cellColumn p < fc \<and> fc < cellColumn p + cellWidth p \<and>
                   isAffectedBySelection (cellRow p) (cellHeight p) (fr, lr))) \<or>
     (1 \<le> fc \<and> cellColumn p < fc \<and> fc < cellColumn p + cellWidth p \<and>
      isAffectedBySelection (cellRow p) (cellHeight p) (fr, lr) \<and>
      (q = p\<lparr>cellWidth := fc - cellColumn p\<rparr> \<or>
       q = p\<lparr>cellColumn := fc, cellWidth := cellColumn p + cellWidth p - fc\<rparr>))"
    by blast
  from p assms(2) have pos: "0 < cellHeight p" "0 < cellWidth p" by auto
  note aff = isAffectedBySelection_iff[OF pos(1) assms(1), of "cellRow p"]
  from c show ?thesis
  proof
    assume "q = p \<and> \<not> (1 \<le> fc \<and> cellColumn p < fc \<and> fc < cellColumn p + cellWidth p \<and>
                   isAffectedBySelection (cellRow p) (cellHeight p) (fr, lr))"
    with pos aff show ?thesis by auto
  next
    assume "1 \<le> fc \<and> cellColumn p < fc \<and> fc < cellColumn p + cellWidth p \<and>
      isAffectedBySelection (cellRow p) (cellHeight p) (fr, lr) \<and>
      (q = p\<lparr>cellWidth := fc - cellColumn p\<rparr> \<or>
       q = p\<lparr>cellColumn := fc, cellWidth := cellColumn p + cellWidth p - fc\<rparr>)"
    with pos show ?thesis by auto
  qed
qed

lemma vertical_split_last:
  assumes "fr \<le> lr" and "fc \<le> lc"
    and "\<forall>p \<in> set t. 0 < cellHeight p \<and> 0 < cellWidth p \<and>
       (cellRow p \<le> lr \<and> fr < cellRow p + cellHeight p \<longrightarrow>
          \<not> (cellColumn p < fc \<and> fc < cellColumn p + cellWidth p))"
    and "q \<in> set (fst (doVerticalSplit t (lc + 1) (fr, lr)))"
  shows "0 < cellHeight q \<and> 0 < cellWidth q \<and>
     (cellRow q \<le> lr \<and> fr < cellRow q + cellHeight q \<longrightarrow>
        \<not> (cellColumn q < fc \<and> fc < cellColumn q + cellWidth q) \<and>
        \<not> (cellColumn q < lc + 1 \<and> lc + 1 < cellColumn q + cellWidth q))"
proof -
  from doVerticalSplit_mem[OF assms(4)] obtain p where p: "p \<in> set t"
    and c: "(q = p \<and> \<not> (1 \<le> lc + 1 \<and> cellColumn p < lc + 1 \<and> lc + 1 < cellColumn p + cellWidth p \<and>
                   isAffectedBySelection (cellRow p) (cellHeight p) (fr, lr))) \<or>
     (1 \<le> lc + 1 \<and> cellColumn p < lc + 1 \<and> lc + 1 < cellColumn p + cellWidth p \<and>
      isAffectedBySelection (cellRow p) (cellHeight p) (fr, lr) \<and>
      (q = p\<lparr>cellWidth := lc + 1 - cellColumn p\<rparr> \<or>
       q = p\<lparr>cellColumn := lc + 1, cellWidth := cellColumn p + cellWidth p - (lc + 1)\<rparr>))"
    by blast
  from p assms(3) have pos: "0 < cellHeight p" "0 < cellWidth p"
    and inv: "cellRow p \<le> lr \<and> fr < cellRow p + cellHeight p \<longrightarrow>
          \<not> (cellColumn p < fc \<and> fc < cellColumn p + cellWidth p)" by auto
  note aff = isAffectedBySelection_iff[OF pos(1) assms(1), of "cellRow p"]
  from c show ?thesis
  proof
    assume "q = p \<and> \<not> (1 \<le> lc + 1 \<and> cellColumn p < lc + 1 \<and> lc + 1 < cellColumn p + cellWidth p \<and>
                   isAffectedBySelection (cellRow p) (cellHeight p) (fr, lr))"
    with pos aff inv show ?thesis by auto
  next
    assume "1 \<le> lc + 1 \<and> cellColumn p < lc + 1 \<and> lc + 1 < cellColumn p + cellWidth p \<and>
      isAffectedBySelection (cellRow p) (cellHeight p) (fr, lr) \<and>
      (q = p\<lparr>cellWidth := lc + 1 - cellColumn p\<rparr> \<or>
       q = p\<lparr>cellColumn := lc + 1, cellWidth := cellColumn p + cellWidth p - (lc + 1)\<rparr>)"
    with pos inv assms(2) show ?thesis by auto
  qed
qed

lemma horizontal_split_first:
  assumes "fc \<le> lc"
    and "\<forall>p \<in> set t. 0 < cellHeight p \<and> 0 < cellWidth p \<and>
       (cellRow p \<le> lr \<and> fr < cellRow p + cellHeight p \<longrightarrow>
          \<not> (cellColumn p < fc \<and> fc < cellColumn p + cellWidth p) \<and>
          \<not> (cellColumn p < lc + 1 \<and> lc + 1 < cellColumn p + cellWidth p))"
    and "q \<in> set (fst (doHorizontalSplit t fr (fc, lc) 0))"
  shows "0 < cellHeight q \<and> 0 < cellWidth q \<and>
     (cellRow q \<le> lr \<and> fr < cellRow q + cellHeight q \<longrightarrow>
        \<not> (cellColumn q < fc \<and> fc < cellColumn q + cellWidth q) \<and>
        \<not> (cellColumn q < lc + 1 \<and> lc + 1 < cellColumn q + cellWidth q)) \<and>
     (cellColumn q \<le> lc \<and> fc < cellColumn q + cellWidth q \<longrightarrow>
        \<not> (cellRow q < fr \<and> fr < cellRow q + cellHeight q))"
proof -
  from doHorizontalSplit_mem[OF assms(3)] obtain p where p: "p \<in> set t"
    and c: "(q = p \<and> \<not> (1 \<le> fr \<and> 0 \<le> cellRow p \<and> cellRow p < fr \<and> fr < cellRow p + cellHeight p \<and>
                   isAffectedBySelection (cellColumn p) (cellWidth p) (fc, lc))) \<or>
     (1 \<le> fr \<and> 0 \<le> cellRow p \<and> cellRow p < fr \<and> fr < cellRow p + cellHeight p \<and>
      isAffectedBySelection (cellColumn p) (cellWidth p) (fc, lc) \<and>
      (q = p\<lparr>cellHeight := fr - cellRow p\<rparr> \<or>
       q = p\<lparr>cellRow := fr, cellHeight := cellRow p + cellHeight p - fr\<rparr>))"
    by blast
  from p assms(2) have pos: "0 < cellHeight p" "0 < cellWidth p"
    and inv: "cellRow p \<le> lr \<and> fr < cellRow p + cellHeight p \<longrightarrow>
          \<not> (cellColumn p < fc \<and> fc < cellColumn p + cellWidth p) \<and>
          \<not> (cellColumn p < lc + 1 \<and> lc + 1 < cellColumn p + cellWidth p)" by auto
  note aff = isAffectedBySelection_iff[OF pos(2) assms(1), of "cellColumn p"]
  from c show ?thesis
  proof
    assume "q = p \<and> \<not> (1 \<le> fr \<and> 0 \<le> cellRow p \<and> cellRow p < fr \<and> fr < cellRow p + cellHeight p \<and>
                   isAffectedBySelection (cellColumn p) (cellWidth p) (fc, lc))"
    with pos aff inv show ?thesis by auto
  next
    assume "1 \<le> fr \<and> 0 \<le> cellRow p \<and> cellRow p < fr \<and> fr < cellRow p + cellHeight p \<and>
      isAffectedBySelection (cellColumn p) (cellWidth p) (fc, lc) \<and>
      (q = p\<lparr>cellHeight := fr - cellRow p\<rparr> \<or>
       q = p\<lparr>cellRow := fr, cellHeight := cellRow p + cellHeight p - fr\<rparr>)"
    with pos inv show ?thesis by auto
  qed
qed

lemma horizontal_split_last:
  assumes "fc \<le> lc" and "fr \<le> lr"
    and "\<forall>p \<in> set t. 0 < cellHeight p \<and> 0 < cellWidth p \<and>
       (cellRow p \<le> lr \<and> fr < cellRow p + cellHeight p \<longrightarrow>
          \<not> (cellColumn p < fc \<and> fc < cellColumn p + cellWidth p) \<and>
          \<not> (cellColumn p < lc + 1 \<and> lc + 1 < cellColumn p + cellWidth p)) \<and>
       (cellColumn p \<le> lc \<and> fc < cellColumn p + cellWidth p \<longrightarrow>
          \<not> (cellRow p < fr \<and> fr < cellRow p + cellHeight p))"
    and "q \<in> set (fst (doHorizontalSplit t (lr + 1) (fc, lc) fr))"
  shows "(cellRow q \<le> lr \<and> fr < cellRow q + cellHeight q \<longrightarrow>
        \<not> (cellColumn q < fc \<and> fc < cellColumn q + cellWidth q) \<and>
        \<not> (cellColumn q < lc + 1 \<and> lc + 1 < cellColumn q + cellWidth q)) \<and>
     (cellColumn q \<le> lc \<and> fc < cellColumn q + cellWidth q \<longrightarrow>
        \<not> (cellRow q < fr \<and> fr < cellRow q + cellHeight q) \<and>
        (fr \<le> cellRow q \<longrightarrow> \<not> (cellRow q < lr + 1 \<and> lr + 1 < cellRow q + cellHeight q)))"
proof -
  from doHorizontalSplit_mem[OF assms(4)] obtain p where p: "p \<in> set t"
    and c: "(q = p \<and> \<not> (1 \<le> lr + 1 \<and> fr \<le> cellRow p \<and> cellRow p < lr + 1 \<and>
                   lr + 1 < cellRow p + cellHeight p \<and>
                   isAffectedBySelection (cellColumn p) (cellWidth p) (fc, lc))) \<or>
     (1 \<le> lr + 1 \<and> fr \<le> cellRow p \<and> cellRow p < lr + 1 \<and> lr + 1 < cellRow p + cellHeight p \<and>
      isAffectedBySelection (cellColumn p) (cellWidth p) (fc, lc) \<and>
      (q = p\<lparr>cellHeight := lr + 1 - cellRow p\<rparr> \<or>
       q = p\<lparr>cellRow := lr + 1, cellHeight := cellRow p + cellHeight p - (lr + 1)\<rparr>))"
    by blast
  from p assms(3) have pos: "0 < cellHeight p" "0 < cellWidth p"
    and inv1: "cellRow p \<le> lr \<and> fr < cellRow p + cellHeight p \<longrightarrow>
          \<not> (cellColumn p < fc \<and> fc < cellColumn p + cellWidth p) \<and>
          \<not> (cellColumn p < lc + 1 \<and> lc + 1 < cellColumn p + cellWidth p)"
    and inv2: "cellColumn p \<le> lc \<and> fc < cellColumn p + cellWidth p \<longrightarrow>
          \<not> (cellRow p < fr \<and> fr < cellRow p + cellHeight p)" by auto
  note aff = isAffectedBySelection_iff[OF pos(2) assms(1), of "cellColumn p"]
  from c show ?thesis
  proof
    assume "q = p \<and> \<not> (1 \<le> lr + 1 \<and> fr \<le> cellRow p \<and> cellRow p < lr + 1 \<and>
                   lr + 1 < cellRow p + cellHeight p \<and>
                   isAffectedBySelection (cellColumn p) (cellWidth p) (fc, lc))"
    with pos aff inv1 inv2 show ?thesis by auto
  next
    assume "1 \<le> lr + 1 \<and> fr \<le> cellRow p \<and> cellRow p < lr + 1 \<and> lr + 1 < cellRow p + cellHeight p \<and>
      isAffectedBySelection (cellColumn p) (cellWidth p) (fc, lc) \<and>
      (q = p\<lparr>cellHeight := lr + 1 - cellRow p\<rparr> \<or>
       q = p\<lparr>cellRow := lr + 1, cellHeight := cellRow p + cellHeight p - (lr + 1)\<rparr>)"
    with pos inv1 inv2 assms(2) show ?thesis by auto
  qed
qed

lemma rectangleSlots_mem:
  "(r, c) \<in> set (rectangleSlots sel) \<longleftrightarrow>
     firstRow sel \<le> r \<and> r \<le> lastRow sel \<and> firstColumn sel \<le> c \<and> c \<le> lastColumn sel"
proof -
  have "(r, c) \<in> set (rectangleSlots sel) \<longleftrightarrow>
      r \<in> set [firstRow sel..<Suc (lastRow sel)] \<and> c \<in> set [firstColumn sel..<Suc (lastColumn sel)]"
    unfolding rectangleSlots_def by (force simp del: upt_Suc)
  then show ?thesis by (simp del: upt_Suc) auto
qed

lemma split_selection_valid:
  assumes "firstRow sel \<le> lastRow sel" and "firstColumn sel \<le> lastColumn sel"
    and "\<forall>p \<in> set t. 0 < cellHeight p \<and> 0 < cellWidth p"
    and "q \<in> set (walkAllSlots (splitCellsToRectangularSelection t sel) sel)"
  shows "\<not> crossesBoundary q sel"
proof -
  let ?fr = "firstRow sel" and ?lr = "lastRow sel" and ?fc = "firstColumn sel" and ?lc = "lastColumn sel"
  let ?t1 = "fst (doVerticalSplit t ?fc (?fr, ?lr))"
  let ?t2 = "fst (doVerticalSplit ?t1 (?lc + 1) (?fr, ?lr))"
  let ?t3 = "fst (doHorizontalSplit ?t2 ?fr (?fc, ?lc) 0)"
  let ?t4 = "fst (doHorizontalSplit ?t3 (?lr + 1) (?fc, ?lc) ?fr)"
  have t4: "splitCellsToRectangularSelection t sel = ?t4"
    by (simp add: splitCellsToRectangularSelection_def Let_def)
  from assms(4) obtain r c where s: "(r, c) \<in> set (rectangleSlots sel)"
    and q: "q \<in> set ?t4" and cov: "coversSlot q (r, c)"
    unfolding t4 walkAllSlots_def by auto
  have i1: "\<forall>p \<in> set ?t1. 0 < cellHeight p \<and> 0 < cellWidth p \<and>
       (cellRow p \<le> ?lr \<and> ?fr < cellRow p + cellHeight p \<longrightarrow>
          \<not> (cellColumn p < ?fc \<and> ?fc < cellColumn p + cellWidth p))"
    using vertical_split_first[OF assms(1,3)] by blast
  have i2: "\<forall>p \<in> set ?t2. 0 < cellHeight p \<and> 0 < cellWidth p \<and>
       (cellRow p \<le> ?lr \<and> ?fr < cellRow p + cellHeight p \<longrightarrow>
          \<not> (cellColumn p < ?fc \<and> ?fc < cellColumn p + cellWidth p) \<and>
          \<not> (cellColumn p < ?lc + 1 \<and> ?lc + 1 < cellColumn p + cellWidth p))"
    using vertical_split_last[OF assms(1,2) i1] by blast
  have i3: "\<forall>p \<in> set ?t3. 0 < cellHeight p \<and> 0 < cellWidth p \<and>
       (cellRow p \<le> ?lr \<and> ?fr < cellRow p + cellHeight p \<longrightarrow>
          \<not> (cellColumn p < ?fc \<and> ?fc < cellColumn p + cellWidth p) \<and>
          \<not> (cellColumn p < ?lc + 1 \<and> ?lc + 1 < cellColumn p + cellWidth p)) \<and>
       (cellColumn p \<le> ?lc \<and> ?fc < cellColumn p + cellWidth p \<longrightarrow>
          \<not> (cellRow p < ?fr \<and> ?fr < cellRow p + cellHeight p))"
    using horizontal_split_first[OF assms(2) i2] by blast
  note i4 = horizontal_split_last[OF assms(2,1) i3 q]
  from s have "?fr \<le> r" "r \<le> ?lr" "?fc \<le> c" "c \<le> ?lc" by (simp_all add: rectangleSlots_mem)
  with cov i4 show ?thesis by (auto simp: coversSlot_def crossesBoundary_def)
qed

lemma expandTableSize_positive:
  assumes "\<forall>t at n. (\<forall>p \<in> set t. 0 < cellHeight p \<and> 0 < cellWidth p) \<longrightarrow>
             (\<forall>p \<in> set (insertColumns t at n). 0 < cellHeight p \<and> 0 < cellWidth p)"
    and "\<forall>t at n. (\<forall>p \<in> set t. 0 < cellHeight p \<and> 0 < cellWidth p) \<longrightarrow>
             (\<forall>p \<in> set (insertRows t at n). 0 < cellHeight p \<and> 0 < cellWidth p)"
    and "\<forall>p \<in> set t. 0 < cellHeight p \<and> 0 < cellWidth p"
  shows "\<forall>p \<in> set (expandTableSize insertColumns insertRows t w h eh ew).
           0 < cellHeight p \<and> 0 < cellWidth p"
proof -
  define t1 where "t1 = (if ew > w then insertColumns t w (ew - w) else t)"
  have t1: "\<forall>p \<in> set t1. 0 < cellHeight p \<and> 0 < cellWidth p"
  proof (cases "ew > w")
    case True
    from assms(1)[rule_format, OF assms(3)[rule_format]] True show ?thesis
      unfolding t1_def by auto
  next
    case False
    with assms(3) show ?thesis unfolding t1_def by simp
  qed
  have e: "expandTableSize insertColumns insertRows t w h eh ew
      = (if eh > h then insertRows t1 h (eh - h) else t1)"
    by (simp add: expandTableSize_def t1_def Let_def)
  show ?thesis
  proof (cases "eh > h")
    case True
    from assms(2)[rule_format, OF t1[rule_format]] True show ?thesis
      unfolding e by auto
  next
    case False
    with t1 show ?thesis unfolding e by simp
  qed
qed

text \<open>The path that does not split: selected cells that fill the rectangle they span.\<close>

lemma fills_covered:
  assumes "fillsRectangle cells"
    and "firstRow (spannedRectangle cells) \<le> r" and "r \<le> lastRow (spannedRectangle cells)"
    and "firstColumn (spannedRectangle cells) \<le> c" and "c \<le> lastColumn (spannedRectangle cells)"
  shows "\<exists>p \<in> set cells. coversSlot p (r, c)"
proof -
  from assms(2-5) have "(r, c) \<in> set (rectangleSlots (spannedRectangle cells))"
    by (simp add: rectangleSlots_mem)
  with assms(1) have "list_ex (\<lambda>p. coversSlot p (r, c)) cells"
    unfolding fillsRectangle_def list_all_iff by blast
  then show ?thesis by (simp add: list_ex_iff)
qed

lemma spanned_bounds:
  assumes "p \<in> set cells"
  shows "firstRow (spannedRectangle cells) \<le> cellRow p"
    and "cellRow p \<le> snd (getRowIndexes cells)"
    and "cellRow p + cellHeight p - 1 \<le> lastRow (spannedRectangle cells)"
    and "firstColumn (spannedRectangle cells) \<le> cellColumn p"
    and "cellColumn p \<le> snd (getColumnIndexes cells)"
    and "cellColumn p + cellWidth p - 1 \<le> lastColumn (spannedRectangle cells)"
  using assms by (simp_all add: spannedRectangle_def getRowIndexes_def getColumnIndexes_def)

lemma last_anchor_row:
  assumes "cells \<noteq> []"
  shows "\<exists>p \<in> set cells. cellRow p = snd (getRowIndexes cells)"
proof -
  from assms have "Max (set (map cellRow cells)) \<in> set (map cellRow cells)"
    by (intro Max_in) simp_all
  then show ?thesis by (auto simp: getRowIndexes_def)
qed

lemma last_anchor_column:
  assumes "cells \<noteq> []"
  shows "\<exists>p \<in> set cells. cellColumn p = snd (getColumnIndexes cells)"
proof -
  from assms have "Max (set (map cellColumn cells)) \<in> set (map cellColumn cells)"
    by (intro Max_in) simp_all
  then show ?thesis by (auto simp: getColumnIndexes_def)
qed

lemma last_row_reached:
  assumes "cells \<noteq> []"
  shows "\<exists>p \<in> set cells. cellRow p + cellHeight p - 1 = lastRow (spannedRectangle cells)"
proof -
  from assms have "Max (set (map (\<lambda>p. cellRow p + cellHeight p - 1) cells))
      \<in> set (map (\<lambda>p. cellRow p + cellHeight p - 1) cells)"
    by (intro Max_in) simp_all
  then show ?thesis by (auto simp: spannedRectangle_def)
qed

lemma last_column_reached:
  assumes "cells \<noteq> []"
  shows "\<exists>p \<in> set cells. cellColumn p + cellWidth p - 1 = lastColumn (spannedRectangle cells)"
proof -
  from assms have "Max (set (map (\<lambda>p. cellColumn p + cellWidth p - 1) cells))
      \<in> set (map (\<lambda>p. cellColumn p + cellWidth p - 1) cells)"
    by (intro Max_in) simp_all
  then show ?thesis by (auto simp: spannedRectangle_def)
qed

lemma first_indexes:
  "fst (getRowIndexes cells) = firstRow (spannedRectangle cells)"
  "fst (getColumnIndexes cells) = firstColumn (spannedRectangle cells)"
  by (simp_all add: getRowIndexes_def getColumnIndexes_def spannedRectangle_def)

lemma last_row_cells:
  assumes ne: "cells \<noteq> []" and sub: "set cells \<subseteq> set t"
    and pos: "\<forall>p \<in> set t. 0 < cellHeight p \<and> 0 < cellWidth p"
    and uniq: "\<forall>p \<in> set t. \<forall>q \<in> set t. \<forall>s. coversSlot p s \<and> coversSlot q s \<longrightarrow> p = q"
    and fill: "fillsRectangle cells"
    and q: "q \<in> set t" "cellRow q = snd (getRowIndexes cells)"
      "firstColumn (spannedRectangle cells) \<le> cellColumn q"
      "cellColumn q \<le> snd (getColumnIndexes cells)"
  shows "q \<in> set cells \<and> cellRow q + cellHeight q - 1 = lastRow (spannedRectangle cells)"
proof -
  let ?B = "spannedRectangle cells"
  let ?L = "snd (getRowIndexes cells)" and ?C = "snd (getColumnIndexes cells)"
  from last_anchor_row[OF ne] obtain p0 where p0: "p0 \<in> set cells" "cellRow p0 = ?L" by blast
  from p0(1) sub pos have "0 < cellHeight p0" by blast
  with spanned_bounds(3)[OF p0(1)] p0(2) have L_le: "?L \<le> lastRow ?B" by simp
  from spanned_bounds(1)[OF p0(1)] p0(2) have fr_le: "firstRow ?B \<le> ?L" by simp
  from last_anchor_column[OF ne] obtain p1 where p1: "p1 \<in> set cells" "cellColumn p1 = ?C" by blast
  from p1(1) sub pos have "0 < cellWidth p1" by blast
  with spanned_bounds(6)[OF p1(1)] p1(2) have C_le: "?C \<le> lastColumn ?B" by simp
  from q(1) pos have qpos: "0 < cellHeight q" "0 < cellWidth q" by blast+
  have col: "cellColumn q \<le> lastColumn ?B" using q(4) C_le by simp
  have own: "coversSlot q (?L, cellColumn q)" using q(2) qpos by (simp add: coversSlot_def)
  from fills_covered[OF fill fr_le L_le q(3) col] obtain p where
    p: "p \<in> set cells" "coversSlot p (?L, cellColumn q)" by blast
  from p(1) sub have pt: "p \<in> set t" by blast
  from uniq pt q(1) p(2) own have "p = q" by blast
  with p(1) have mem: "q \<in> set cells" by simp
  have bottom: "cellRow q + cellHeight q - 1 = lastRow ?B"
  proof (rule ccontr)
    assume "cellRow q + cellHeight q - 1 \<noteq> lastRow ?B"
    with spanned_bounds(3)[OF mem] have less: "cellRow q + cellHeight q - 1 < lastRow ?B" by simp
    let ?r = "cellRow q + cellHeight q"
    from less qpos have r_le: "?r \<le> lastRow ?B" by simp
    from fr_le q(2) have r_ge: "firstRow ?B \<le> ?r" by simp
    from fills_covered[OF fill r_ge r_le q(3) col] obtain p' where
      p': "p' \<in> set cells" "coversSlot p' (?r, cellColumn q)" by blast
    from p'(1) sub have p't: "p' \<in> set t" by blast
    from spanned_bounds(2)[OF p'(1)] have "cellRow p' \<le> ?L" .
    with p'(2) q(2) have "coversSlot p' (?L, cellColumn q)" by (simp add: coversSlot_def)
    with uniq p't q(1) own have "p' = q" by blast
    with p'(2) show False by (simp add: coversSlot_def)
  qed
  from mem bottom show ?thesis by simp
qed

lemma adjustLastRowIndex_spanned:
  assumes ne: "cells \<noteq> []" and sub: "set cells \<subseteq> set t"
    and pos: "\<forall>p \<in> set t. 0 < cellHeight p \<and> 0 < cellWidth p"
    and uniq: "\<forall>p \<in> set t. \<forall>q \<in> set t. \<forall>s. coversSlot p s \<and> coversSlot q s \<longrightarrow> p = q"
    and fill: "fillsRectangle cells"
  shows "adjustLastRowIndex t
       \<lparr>firstRow = fst (getRowIndexes cells), lastRow = snd (getRowIndexes cells),
        firstColumn = fst (getColumnIndexes cells), lastColumn = snd (getColumnIndexes cells)\<rparr>
     = lastRow (spannedRectangle cells)"
proof -
  let ?B = "spannedRectangle cells"
  let ?L = "snd (getRowIndexes cells)" and ?C = "snd (getColumnIndexes cells)"
  let ?P = "\<lambda>p. cellRow p = ?L \<and> firstColumn ?B \<le> cellColumn p \<and> cellColumn p \<le> ?C"
  let ?map = "sort_key cellColumn (filter ?P t)"
  have all: "\<forall>q \<in> set ?map. cellRow q = ?L \<and> cellRow q + cellHeight q - 1 = lastRow ?B \<and>
      0 < cellHeight q"
  proof
    fix q assume "q \<in> set ?map"
    then have q: "q \<in> set t" "cellRow q = ?L" "firstColumn ?B \<le> cellColumn q" "cellColumn q \<le> ?C"
      by simp_all
    from last_row_cells[OF ne sub pos uniq fill q] q(1,2) pos
    show "cellRow q = ?L \<and> cellRow q + cellHeight q - 1 = lastRow ?B \<and> 0 < cellHeight q" by blast
  qed
  from last_anchor_row[OF ne] obtain p0 where p0: "p0 \<in> set cells" "cellRow p0 = ?L" by blast
  from spanned_bounds(4,5)[OF p0(1)] p0 sub have "p0 \<in> set ?map" by auto
  then have nonempty: "?map \<noteq> []" by (metis empty_iff list.set(1))
  then have hd: "hd ?map \<in> set ?map" by (rule hd_in_set)
  have unfold: "adjustLastRowIndex t
       \<lparr>firstRow = fst (getRowIndexes cells), lastRow = ?L,
        firstColumn = fst (getColumnIndexes cells), lastColumn = ?C\<rparr>
     = (if list_all (\<lambda>p. cellHeight p = 1) ?map then ?L else ?L + (cellHeight (hd ?map) - 1))"
    by (simp add: adjustLastRowIndex_def Let_def first_indexes)
  show ?thesis
  proof (cases "list_all (\<lambda>p. cellHeight p = 1) ?map")
    case True
    with hd have "cellHeight (hd ?map) = 1" unfolding list_all_iff by blast
    with all hd have "?L = lastRow ?B" by fastforce
    with True show ?thesis unfolding unfold by simp
  next
    case False
    from all hd have "cellRow (hd ?map) = ?L"
      "cellRow (hd ?map) + cellHeight (hd ?map) - 1 = lastRow ?B" "0 < cellHeight (hd ?map)"
      by blast+
    then have "?L + (cellHeight (hd ?map) - 1) = lastRow ?B" by simp
    with False show ?thesis unfolding unfold by simp
  qed
qed

lemma last_column_cells:
  assumes ne: "cells \<noteq> []" and sub: "set cells \<subseteq> set t"
    and pos: "\<forall>p \<in> set t. 0 < cellHeight p \<and> 0 < cellWidth p"
    and uniq: "\<forall>p \<in> set t. \<forall>q \<in> set t. \<forall>s. coversSlot p s \<and> coversSlot q s \<longrightarrow> p = q"
    and fill: "fillsRectangle cells"
    and q: "q \<in> set t" "cellColumn q = snd (getColumnIndexes cells)"
      "firstRow (spannedRectangle cells) \<le> cellRow q"
      "cellRow q \<le> lastRow (spannedRectangle cells)"
  shows "q \<in> set cells \<and> cellColumn q + cellWidth q - 1 = lastColumn (spannedRectangle cells)"
proof -
  let ?B = "spannedRectangle cells"
  let ?C = "snd (getColumnIndexes cells)"
  from last_anchor_column[OF ne] obtain p1 where p1: "p1 \<in> set cells" "cellColumn p1 = ?C" by blast
  from p1(1) sub pos have "0 < cellWidth p1" by blast
  with spanned_bounds(6)[OF p1(1)] p1(2) have C_le: "?C \<le> lastColumn ?B" by simp
  from spanned_bounds(4)[OF p1(1)] p1(2) have fc_le: "firstColumn ?B \<le> ?C" by simp
  from q(1) pos have qpos: "0 < cellHeight q" "0 < cellWidth q" by blast+
  have own: "coversSlot q (cellRow q, ?C)" using q(2) qpos by (simp add: coversSlot_def)
  from fills_covered[OF fill q(3,4) fc_le C_le] obtain p where
    p: "p \<in> set cells" "coversSlot p (cellRow q, ?C)" by blast
  from p(1) sub have pt: "p \<in> set t" by blast
  from uniq pt q(1) p(2) own have "p = q" by blast
  with p(1) have mem: "q \<in> set cells" by simp
  have right: "cellColumn q + cellWidth q - 1 = lastColumn ?B"
  proof (rule ccontr)
    assume "cellColumn q + cellWidth q - 1 \<noteq> lastColumn ?B"
    with spanned_bounds(6)[OF mem] have less: "cellColumn q + cellWidth q - 1 < lastColumn ?B" by simp
    let ?c = "cellColumn q + cellWidth q"
    from less qpos have c_le: "?c \<le> lastColumn ?B" by simp
    from fc_le q(2) have c_ge: "firstColumn ?B \<le> ?c" by simp
    from fills_covered[OF fill q(3,4) c_ge c_le] obtain p' where
      p': "p' \<in> set cells" "coversSlot p' (cellRow q, ?c)" by blast
    from p'(1) sub have p't: "p' \<in> set t" by blast
    from spanned_bounds(5)[OF p'(1)] have "cellColumn p' \<le> ?C" .
    with p'(2) q(2) have "coversSlot p' (cellRow q, ?C)" by (simp add: coversSlot_def)
    with uniq p't q(1) own have "p' = q" by blast
    with p'(2) show False by (simp add: coversSlot_def)
  qed
  from mem right show ?thesis by simp
qed

lemma adjustLastColumnIndex_spanned:
  assumes ne: "cells \<noteq> []" and sub: "set cells \<subseteq> set t"
    and pos: "\<forall>p \<in> set t. 0 < cellHeight p \<and> 0 < cellWidth p"
    and uniq: "\<forall>p \<in> set t. \<forall>q \<in> set t. \<forall>s. coversSlot p s \<and> coversSlot q s \<longrightarrow> p = q"
    and fill: "fillsRectangle cells"
  shows "adjustLastColumnIndex t
       \<lparr>firstRow = fst (getRowIndexes cells), lastRow = lastRow (spannedRectangle cells),
        firstColumn = fst (getColumnIndexes cells), lastColumn = snd (getColumnIndexes cells)\<rparr>
     = lastColumn (spannedRectangle cells)"
proof -
  let ?B = "spannedRectangle cells"
  let ?C = "snd (getColumnIndexes cells)"
  let ?P = "\<lambda>p. cellColumn p = ?C \<and> firstRow ?B \<le> cellRow p \<and> cellRow p \<le> lastRow ?B"
  let ?map = "sort_key cellRow (filter ?P t)"
  have all: "\<forall>q \<in> set ?map. cellColumn q = ?C \<and> cellColumn q + cellWidth q - 1 = lastColumn ?B \<and>
      0 < cellWidth q"
  proof
    fix q assume "q \<in> set ?map"
    then have q: "q \<in> set t" "cellColumn q = ?C" "firstRow ?B \<le> cellRow q" "cellRow q \<le> lastRow ?B"
      by simp_all
    from last_column_cells[OF ne sub pos uniq fill q] q(1,2) pos
    show "cellColumn q = ?C \<and> cellColumn q + cellWidth q - 1 = lastColumn ?B \<and> 0 < cellWidth q"
      by blast
  qed
  from last_anchor_column[OF ne] obtain p1 where p1: "p1 \<in> set cells" "cellColumn p1 = ?C" by blast
  from p1(1) sub pos have "0 < cellHeight p1" by blast
  with spanned_bounds(3)[OF p1(1)] have "cellRow p1 \<le> lastRow ?B" by simp
  with spanned_bounds(1)[OF p1(1)] p1 sub have "p1 \<in> set ?map" by auto
  then have nonempty: "?map \<noteq> []" by (metis empty_iff list.set(1))
  then have hd: "hd ?map \<in> set ?map" by (rule hd_in_set)
  have unfold: "adjustLastColumnIndex t
       \<lparr>firstRow = fst (getRowIndexes cells), lastRow = lastRow ?B,
        firstColumn = fst (getColumnIndexes cells), lastColumn = ?C\<rparr>
     = (if list_all (\<lambda>p. cellWidth p = 1) ?map then ?C else ?C + (cellWidth (hd ?map) - 1))"
    by (simp add: adjustLastColumnIndex_def Let_def first_indexes)
  show ?thesis
  proof (cases "list_all (\<lambda>p. cellWidth p = 1) ?map")
    case True
    with hd have "cellWidth (hd ?map) = 1" unfolding list_all_iff by blast
    with all hd have "?C = lastColumn ?B" by fastforce
    with True show ?thesis unfolding unfold by simp
  next
    case False
    from all hd have "cellColumn (hd ?map) = ?C"
      "cellColumn (hd ?map) + cellWidth (hd ?map) - 1 = lastColumn ?B" "0 < cellWidth (hd ?map)"
      by blast+
    then have "?C + (cellWidth (hd ?map) - 1) = lastColumn ?B" by simp
    with False show ?thesis unfolding unfold by simp
  qed
qed

lemma filled_rectangle_valid:
  assumes sub: "set cells \<subseteq> set t"
    and uniq: "\<forall>p \<in> set t. \<forall>q \<in> set t. \<forall>s. coversSlot p s \<and> coversSlot q s \<longrightarrow> p = q"
    and fill: "fillsRectangle cells"
  shows "validRectangle t (spannedRectangle cells)"
  unfolding validRectangle_def
proof
  let ?B = "spannedRectangle cells"
  fix q assume "q \<in> set (walkAllSlots t ?B)"
  then obtain r c where s: "(r, c) \<in> set (rectangleSlots ?B)" and q: "q \<in> set t"
    and cov: "coversSlot q (r, c)"
    unfolding walkAllSlots_def by auto
  from s have "firstRow ?B \<le> r" "r \<le> lastRow ?B" "firstColumn ?B \<le> c" "c \<le> lastColumn ?B"
    by (simp_all add: rectangleSlots_mem)
  from fills_covered[OF fill this] obtain p where p: "p \<in> set cells" "coversSlot p (r, c)" by blast
  with sub have "p \<in> set t" by blast
  with uniq q p(2) cov have "p = q" by blast
  with p(1) have "q \<in> set cells" by simp
  from spanned_bounds[OF this] show "\<not> crossesBoundary q ?B"
    by (simp add: crossesBoundary_def not_less)
qed

lemma indexes_ordered:
  assumes "cells \<noteq> []"
  shows "fst (getRowIndexes cells) \<le> snd (getRowIndexes cells)"
    and "fst (getColumnIndexes cells) \<le> snd (getColumnIndexes cells)"
proof -
  from assms have "Min (set (map cellRow cells)) \<le> Max (set (map cellRow cells))"
    by (intro Min_le Max_in) simp_all
  then show "fst (getRowIndexes cells) \<le> snd (getRowIndexes cells)"
    by (simp add: getRowIndexes_def)
  from assms have "Min (set (map cellColumn cells)) \<le> Max (set (map cellColumn cells))"
    by (intro Min_le Max_in) simp_all
  then show "fst (getColumnIndexes cells) \<le> snd (getColumnIndexes cells)"
    by (simp add: getColumnIndexes_def)
qed

lemma rectangular_fills:
  assumes rect: "isSelectionRectangular inSameTableSection cells"
    and dist: "distinct cells" and sub: "set cells \<subseteq> set t"
    and pos: "\<forall>p \<in> set t. 0 < cellHeight p \<and> 0 < cellWidth p"
    and uniq: "\<forall>p \<in> set t. \<forall>q \<in> set t. \<forall>s. coversSlot p s \<and> coversSlot q s \<longrightarrow> p = q"
  shows "fillsRectangle cells"
proof -
  let ?B = "spannedRectangle cells"
  let ?slots = "\<lambda>p. {cellRow p..<cellRow p + cellHeight p} \<times> {cellColumn p..<cellColumn p + cellWidth p}"
  let ?box = "{firstRow ?B..lastRow ?B} \<times> {firstColumn ?B..lastColumn ?B}"
  from rect have ne: "cells \<noteq> []" by (auto simp: isSelectionRectangular_def split: if_splits)
  from rect have area: "(lastRow ?B - firstRow ?B + 1) * (lastColumn ?B - firstColumn ?B + 1)
      = sum_list (map (\<lambda>p. cellHeight p * cellWidth p) cells)"
    by (simp add: isSelectionRectangular_def Let_def split: if_splits)
  have cov: "coversSlot p s \<longleftrightarrow> s \<in> ?slots p" for p s
    by (cases s) (auto simp: coversSlot_def)
  from ne obtain p0 where p0: "p0 \<in> set cells" by (cases cells) auto
  with sub pos have p0pos: "0 < cellHeight p0" "0 < cellWidth p0" by blast+
  have "firstRow ?B \<le> cellRow p0" "cellRow p0 + cellHeight p0 - 1 \<le> lastRow ?B"
    "firstColumn ?B \<le> cellColumn p0" "cellColumn p0 + cellWidth p0 - 1 \<le> lastColumn ?B"
    using p0 by (simp_all add: spannedRectangle_def)
  with p0pos have ord: "firstRow ?B \<le> lastRow ?B" "firstColumn ?B \<le> lastColumn ?B" by simp_all
  have inside: "?slots p \<subseteq> ?box" if "p \<in> set cells" for p
  proof -
    from that sub pos have "0 < cellHeight p" "0 < cellWidth p" by blast+
    moreover have "firstRow ?B \<le> cellRow p" "cellRow p + cellHeight p - 1 \<le> lastRow ?B"
      "firstColumn ?B \<le> cellColumn p" "cellColumn p + cellWidth p - 1 \<le> lastColumn ?B"
      using that by (simp_all add: spannedRectangle_def)
    ultimately show ?thesis by auto
  qed
  have disjoint: "\<forall>p \<in> set cells. \<forall>q \<in> set cells. p \<noteq> q \<longrightarrow> ?slots p \<inter> ?slots q = {}"
  proof (intro ballI impI)
    fix p q assume pq: "p \<in> set cells" "q \<in> set cells" "p \<noteq> q"
    show "?slots p \<inter> ?slots q = {}"
    proof (rule ccontr)
      assume "?slots p \<inter> ?slots q \<noteq> {}"
      then obtain s where "s \<in> ?slots p" "s \<in> ?slots q" by blast
      then have "coversSlot p s" "coversSlot q s" by (simp_all only: cov)
      with uniq pq(1,2) sub have "p = q" by blast
      with pq(3) show False by simp
    qed
  qed
  have "card (\<Union>p \<in> set cells. ?slots p) = (\<Sum>p \<in> set cells. card (?slots p))"
    by (rule card_UN_disjoint) (use disjoint in auto)
  also have "\<dots> = (\<Sum>p \<in> set cells. cellHeight p * cellWidth p)"
    by (simp add: card_cartesian_product)
  also have "\<dots> = sum_list (map (\<lambda>p. cellHeight p * cellWidth p) cells)"
    using dist by (simp add: sum_list_distinct_conv_sum_set)
  also have "\<dots> = card ?box"
    using area ord by (simp add: card_cartesian_product Suc_diff_le)
  finally have card: "card (\<Union>p \<in> set cells. ?slots p) = card ?box" .
  have "(\<Union>p \<in> set cells. ?slots p) \<subseteq> ?box" using inside by blast
  with card have all: "(\<Union>p \<in> set cells. ?slots p) = ?box"
    by (intro card_subset_eq) simp_all
  show ?thesis
    unfolding fillsRectangle_def list_all_iff list_ex_iff
  proof
    fix s assume mem: "s \<in> set (rectangleSlots ?B)"
    obtain r c where s: "s = (r, c)" by (cases s) auto
    from mem have "s \<in> ?box" unfolding s by (simp add: rectangleSlots_mem)
    with all obtain p where "p \<in> set cells" "s \<in> ?slots p" by blast
    then show "\<exists>p \<in> set cells. coversSlot p s" using cov by blast
  qed
qed

text \<open>
  C2. For every table whose cells have spans of at least one and share no slot, and every
  non-empty list of distinct selected cells of the table, \<^verbatim>\<open>prepareTableForPasting\<close> returns a
  selection, and the rectangle it returns is valid: no cell that a walk of all its slots yields
  crosses its first or last row or column. On the path that splits (one selected cell, or a
  selection that is not rectangular) this is the work of \<^verbatim>\<open>splitCellsToRectangularSelection\<close>.
  On the other path the area of the selected cells is the area of the rectangle they span, so
  they fill it; the last row and the last column as adjusted are then the last row and column
  of that rectangle, the table is left as it is, and no cell of it reaches into the rectangle
  from outside.
\<close>

theorem prepared_selection_valid:
  assumes "selectedTableCells \<noteq> []" and "distinct selectedTableCells"
    and "set selectedTableCells \<subseteq> set selectedTable"
    and "0 < fst pastedDimensions" and "0 < snd pastedDimensions"
    and "\<forall>p \<in> set selectedTable. 0 < cellHeight p \<and> 0 < cellWidth p"
    and "\<forall>p \<in> set selectedTable. \<forall>q \<in> set selectedTable. \<forall>s.
           coversSlot p s \<and> coversSlot q s \<longrightarrow> p = q"
    and "\<forall>t at n. (\<forall>p \<in> set t. 0 < cellHeight p \<and> 0 < cellWidth p) \<longrightarrow>
             (\<forall>p \<in> set (insertColumns t at n). 0 < cellHeight p \<and> 0 < cellWidth p)"
    and "\<forall>t at n. (\<forall>p \<in> set t. 0 < cellHeight p \<and> 0 < cellWidth p) \<longrightarrow>
             (\<forall>p \<in> set (insertRows t at n). 0 < cellHeight p \<and> 0 < cellWidth p)"
  shows "\<exists>t' sel'.
     prepareTableForPasting insertColumns insertRows inSameTableSection
       selectedTableCells pastedDimensions selectedTable tableWidth tableHeight = Inr (t', sel') \<and>
     validRectangle t' sel' \<and>
     (length selectedTableCells \<noteq> 1 \<and>
      isSelectionRectangular inSameTableSection selectedTableCells \<longrightarrow>
        t' = selectedTable \<and> sel' = spannedRectangle selectedTableCells)"
proof (cases "length selectedTableCells = 1 \<or>
    \<not> isSelectionRectangular inSameTableSection selectedTableCells")
  case True
  let ?s0 = "\<lparr>firstRow = fst (getRowIndexes selectedTableCells),
               lastRow = snd (getRowIndexes selectedTableCells),
               firstColumn = fst (getColumnIndexes selectedTableCells),
               lastColumn = snd (getColumnIndexes selectedTableCells)\<rparr>"
  let ?s1 = "if length selectedTableCells = 1
             then ?s0\<lparr>lastRow := lastRow ?s0 + fst pastedDimensions - 1,
                      lastColumn := lastColumn ?s0 + snd pastedDimensions - 1\<rparr>
             else ?s0"
  let ?t1 = "if length selectedTableCells = 1
             then expandTableSize insertColumns insertRows selectedTable tableWidth tableHeight
                    (lastRow ?s1 + 1) (lastColumn ?s1 + 1)
             else selectedTable"
  from True assms(1) have res:
    "prepareTableForPasting insertColumns insertRows inSameTableSection
       selectedTableCells pastedDimensions selectedTable tableWidth tableHeight
     = Inr (splitCellsToRectangularSelection ?t1 ?s1, ?s1)"
    by (auto simp: prepareTableForPasting_def Let_def)
  note ord = indexes_ordered[OF assms(1)]
  have rows: "firstRow ?s1 \<le> lastRow ?s1" using ord(1) assms(4) by auto
  have cols: "firstColumn ?s1 \<le> lastColumn ?s1" using ord(2) assms(5) by auto
  have pos: "\<forall>p \<in> set ?t1. 0 < cellHeight p \<and> 0 < cellWidth p"
  proof (cases "length selectedTableCells = 1")
    case True
    then show ?thesis using expandTableSize_positive[OF assms(8,9,6)] by presburger
  next
    case False
    then show ?thesis using assms(6) by presburger
  qed
  have "validRectangle (splitCellsToRectangularSelection ?t1 ?s1) ?s1"
    unfolding validRectangle_def using split_selection_valid[OF rows cols pos] by blast
  with res True show ?thesis by blast
next
  case False
  then have many: "length selectedTableCells \<noteq> 1"
    and rect: "isSelectionRectangular inSameTableSection selectedTableCells" by simp_all
  have fill: "fillsRectangle selectedTableCells"
    by (rule rectangular_fills[OF rect assms(2,3,6,7)])
  let ?B = "spannedRectangle selectedTableCells"
  note row = adjustLastRowIndex_spanned[OF assms(1,3,6,7) fill]
  note col = adjustLastColumnIndex_spanned[OF assms(1,3,6,7) fill]
  have box: "\<lparr>firstRow = fst (getRowIndexes selectedTableCells), lastRow = lastRow ?B,
      firstColumn = fst (getColumnIndexes selectedTableCells), lastColumn = lastColumn ?B\<rparr> = ?B"
    by (simp add: spannedRectangle_def getRowIndexes_def getColumnIndexes_def)
  from many rect assms(1) have res:
    "prepareTableForPasting insertColumns insertRows inSameTableSection
       selectedTableCells pastedDimensions selectedTable tableWidth tableHeight
     = Inr (selectedTable, ?B)"
    by (simp add: prepareTableForPasting_def Let_def row col box)
  have "validRectangle selectedTable ?B"
    by (rule filled_rectangle_valid[OF assms(3,7) fill])
  with res show ?thesis by blast
qed

lemma tall_example:
  "prepareTableForPasting (\<lambda>t at n. t) (\<lambda>t at n. t) True
     [place 1 0 2 1, place 1 1 2 1] (2, 2) tallLayout 2 3
   = Inr (tallLayout, \<lparr>firstRow = 1, lastRow = 2, firstColumn = 0, lastColumn = 1\<rparr>)"
  by (simp add: prepareTableForPasting_def getRowIndexes_def getColumnIndexes_def
      isSelectionRectangular_def spannedRectangle_def
      adjustLastRowIndex_def adjustLastColumnIndex_def tallLayout_def place_def Let_def)

lemma tall_grid:
  "\<forall>p \<in> set tallLayout. \<forall>q \<in> set tallLayout. \<forall>s. coversSlot p s \<and> coversSlot q s \<longrightarrow> p = q"
  by (auto simp: tallLayout_def place_def coversSlot_def)

theorem prepared_selection_valid_witness:
  "prepareTableForPasting (\<lambda>t at n. t) (\<lambda>t at n. t) True
     [place 1 0 2 1, place 1 1 2 1] (2, 2) tallLayout 2 3
   = Inr (tallLayout, \<lparr>firstRow = 1, lastRow = 2, firstColumn = 0, lastColumn = 1\<rparr>) \<and>
   validRectangle tallLayout \<lparr>firstRow = 1, lastRow = 2, firstColumn = 0, lastColumn = 1\<rparr>"
proof -
  have cells: "[place 1 0 2 1, place 1 1 2 1] \<noteq> []"
    "distinct [place 1 0 2 1, place 1 1 2 1]"
    "set [place 1 0 2 1, place 1 1 2 1] \<subseteq> set tallLayout"
    by (simp_all add: tallLayout_def place_def)
  have dims: "0 < fst (2 :: nat, 2 :: nat)" "0 < snd (2 :: nat, 2 :: nat)" by simp_all
  have pos: "\<forall>p \<in> set tallLayout. 0 < cellHeight p \<and> 0 < cellWidth p"
    by (simp add: tallLayout_def place_def)
  have keep: "\<forall>t at n. (\<forall>p \<in> set t. 0 < cellHeight p \<and> 0 < cellWidth p) \<longrightarrow>
      (\<forall>p \<in> set ((\<lambda>(t :: layout) (at :: nat) (n :: nat). t) t at n). 0 < cellHeight p \<and> 0 < cellWidth p)"
    by simp
  from prepared_selection_valid [OF cells dims pos tall_grid keep keep, of True 2 3]
  obtain t' sel' where
    "prepareTableForPasting (\<lambda>t at n. t) (\<lambda>t at n. t) True
       [place 1 0 2 1, place 1 1 2 1] (2, 2) tallLayout 2 3 = Inr (t', sel')"
    and "validRectangle t' sel'"
    by blast
  with tall_example show ?thesis by simp
qed

text \<open>The path that splits: one selected cell, a pasted table of two rows and two columns.\<close>

lemma prepare_example:
  "prepareTableForPasting (\<lambda>t at n. t) (\<lambda>t at n. t) True [place 0 1 1 1] (2, 2) mergedLayout 3 3
   = Inr (splitLayout, \<lparr>firstRow = 0, lastRow = 1, firstColumn = 1, lastColumn = 2\<rparr>)"
  by (simp add: prepareTableForPasting_def getRowIndexes_def getColumnIndexes_def
      expandTableSize_def splitCellsToRectangularSelection_def
      doVerticalSplit_def doHorizontalSplit_def getHorizontallyOverlappingCells_def
      getVerticallyOverlappingCells_def isAffectedBySelection_def splitVertically_def
      splitHorizontally_def mergedLayout_def splitLayout_def place_def Let_def)

end
